theory Spec2Isabelle
  imports Main "HOL-Library.Word"
begin

section \<open>The GL stream buffer of \<^verbatim>\<open>src/common/gl/stream_buffer.cpp\<close>\<close>

text \<open>
  The C++ classes are embedded as records, one per class, following the inheritance chain
  \<^verbatim>\<open>StreamBuffer\<close> / \<^verbatim>\<open>SyncingStreamBuffer\<close> / \<^verbatim>\<open>BufferStorageStreamBuffer\<close>.
  \<^verbatim>\<open>u32\<close> is a 32-bit word, so every addition, multiplication and subtraction wraps as in
  the source.  The OpenGL driver is outside the program: every GL call a method issues is
  appended to the field \<open>gl_calls\<close>, and the handle \<^verbatim>\<open>glFenceSync\<close> returns is a
  fresh number taken from the counter \<open>gl_syncs_created\<close>.  A \<^verbatim>\<open>GLsync\<close> is
  \<open>None\<close> for \<^verbatim>\<open>nullptr\<close> and \<open>Some h\<close> for the handle \<open>h\<close>.

  The model is the debug build: a failing \<^verbatim>\<open>DebugAssert\<close> or \<^verbatim>\<open>Assert\<close> ends the call with
  \<open>AssertionFailed\<close>.  An index outside \<^verbatim>\<open>std::array<GLsync, 16>\<close> ends it with
  \<open>OutOfBounds\<close>, an integer division by zero with \<open>DivisionByZero\<close>.  A call that returns
  \<open>Inr\<close> in this model passed every assertion, so the release build (where
  \<^verbatim>\<open>DebugAssert\<close> expands to nothing) computes the same result on the same input.
\<close>

type_synonym u8 = "8 word"
type_synonym u32 = "32 word"
type_synonym GLenum = u32
type_synonym GLuint = u32
type_synonym GLsync = "nat option"

datatype error = AssertionFailed | OutOfBounds | DivisionByZero

text \<open>A pointer \<^verbatim>\<open>Map\<close> hands back is either into the CPU staging vector of a
  naive backend or into the persistently mapped range, with its byte offset.\<close>

datatype pointer = CpuBufferData nat | MappedPtr nat nat

datatype gl_call =
    GenBuffers GLuint
  | DeleteBuffers GLuint
  | BindBuffer GLenum GLuint
  | BufferData GLenum u32 "pointer option"
  | BufferSubData GLenum u32 u32
  | BufferStorage GLenum u32 u32
  | BufferStorageEXT GLenum u32 u32
  | MapBufferRange GLenum u32 u32 u32
  | UnmapBuffer GLenum
  | FlushMappedBufferRange GLenum u32 u32
  | FenceSync nat
  | ClientWaitSync GLsync
  | DeleteSync GLsync
  | GetError

record MappingResult =
  pointer :: pointer
  buffer_offset :: u32
  index_aligned :: u32
  space_aligned :: u32

record StreamBuffer =
  m_target :: GLenum
  m_buffer_id :: GLuint
  m_size :: u32
  gl_calls :: "gl_call list"

record NaiveStreamBuffer = StreamBuffer +
  m_cpu_buffer :: "u8 list"

record SyncingStreamBuffer = StreamBuffer +
  m_position :: u32
  m_used_block_index :: u32
  m_available_block_index :: u32
  m_bytes_per_block :: u32
  m_sync_objects :: "GLsync list"
  gl_syncs_created :: nat

record BufferStorageStreamBuffer = SyncingStreamBuffer +
  m_mapped_ptr :: nat
  m_coherent :: bool

definition NUM_SYNC_POINTS :: u32 where
  "NUM_SYNC_POINTS = 16"

subsection \<open>The ring of sync points (\<^verbatim>\<open>SyncingStreamBuffer\<close>)\<close>

text \<open>\<^verbatim>\<open>offset / m_bytes_per_block\<close>; a buffer of size 0 has blocks of 0 bytes and the
  division traps.\<close>

definition GetSyncIndexForOffset ::
  "u32 \<Rightarrow> ('a SyncingStreamBuffer_scheme) \<Rightarrow> error + u32" where
  "GetSyncIndexForOffset offset s =
     (if m_bytes_per_block s = 0 then Inl DivisionByZero
      else Inr (offset div m_bytes_per_block s))"

text \<open>An index into \<^verbatim>\<open>std::array<GLsync, NUM_SYNC_POINTS>\<close> is in bounds below 16; the list
  that stands for the array has 16 entries in every constructed buffer.\<close>

definition in_bounds :: "u32 \<Rightarrow> ('a SyncingStreamBuffer_scheme) \<Rightarrow> bool" where
  "in_bounds i s = (i < NUM_SYNC_POINTS \<and> unat i < length (m_sync_objects s))"

text \<open>The body of the loop of \<^verbatim>\<open>AddSyncsForOffset\<close>:
  \<^verbatim>\<open>for (; m_used_block_index < end; m_used_block_index++)\<close>.\<close>

function AddSyncs_loop ::
  "u32 \<Rightarrow> ('a SyncingStreamBuffer_scheme) \<Rightarrow> error + ('a SyncingStreamBuffer_scheme)" where
  "AddSyncs_loop end s =
     (if m_used_block_index s < end then
        (if \<not> in_bounds (m_used_block_index s) s then Inl OutOfBounds
         else if m_sync_objects s ! unat (m_used_block_index s) \<noteq> None then Inl AssertionFailed
         else AddSyncs_loop end
           (s\<lparr>m_sync_objects :=
                 (m_sync_objects s)[unat (m_used_block_index s) := Some (gl_syncs_created s)],
               gl_calls := gl_calls s @ [FenceSync (gl_syncs_created s)],
               gl_syncs_created := Suc (gl_syncs_created s),
               m_used_block_index := m_used_block_index s + 1\<rparr>))
      else Inr s)"
  by pat_completeness auto
termination
proof (relation "measure (\<lambda>(e, s). unat e - unat (m_used_block_index s))")
  show "wf (measure (\<lambda>(e, s). unat e - unat (m_used_block_index s)))"
    by simp
next
  fix e :: u32 and s :: "'a SyncingStreamBuffer_scheme"
  assume lt: "m_used_block_index s < e"
  then have "unat (m_used_block_index s + 1) = unat (m_used_block_index s) + 1"
    by unat_arith
  with lt show "((e, s\<lparr>m_sync_objects :=
                 (m_sync_objects s)[unat (m_used_block_index s) := Some (gl_syncs_created s)],
               gl_calls := gl_calls s @ [FenceSync (gl_syncs_created s)],
               gl_syncs_created := Suc (gl_syncs_created s),
               m_used_block_index := m_used_block_index s + 1\<rparr>), (e, s))
        \<in> measure (\<lambda>(e, s). unat e - unat (m_used_block_index s))"
    by (simp add: word_less_nat_alt)
qed

definition AddSyncsForOffset ::
  "u32 \<Rightarrow> ('a SyncingStreamBuffer_scheme) \<Rightarrow> error + ('a SyncingStreamBuffer_scheme)" where
  "AddSyncsForOffset offset s =
     (case GetSyncIndexForOffset offset s of
        Inl e \<Rightarrow> Inl e
      | Inr end \<Rightarrow> AddSyncs_loop end s)"

text \<open>\<^verbatim>\<open>WaitForSync(m_sync_objects[i])\<close>: wait, delete, and null the slot.  The callers pass
  an index below 16.\<close>

definition WaitForSync ::
  "nat \<Rightarrow> ('a SyncingStreamBuffer_scheme) \<Rightarrow> 'a SyncingStreamBuffer_scheme" where
  "WaitForSync i s =
     s\<lparr>gl_calls := gl_calls s @ [ClientWaitSync (m_sync_objects s ! i),
                                  DeleteSync (m_sync_objects s ! i)],
       m_sync_objects := (m_sync_objects s)[i := None]\<rparr>"

text \<open>The loop of \<^verbatim>\<open>EnsureSyncsWaitedForOffset\<close>:
  \<^verbatim>\<open>for (; m_available_block_index < end; m_available_block_index++)\<close>.\<close>

function EnsureSyncs_loop ::
  "u32 \<Rightarrow> ('a SyncingStreamBuffer_scheme) \<Rightarrow> error + ('a SyncingStreamBuffer_scheme)" where
  "EnsureSyncs_loop end s =
     (if m_available_block_index s < end then
        (if \<not> in_bounds (m_available_block_index s) s then Inl OutOfBounds
         else if m_sync_objects s ! unat (m_available_block_index s) = None
           then Inl AssertionFailed
         else EnsureSyncs_loop end
           ((WaitForSync (unat (m_available_block_index s)) s)
              \<lparr>m_available_block_index := m_available_block_index s + 1\<rparr>))
      else Inr s)"
  by pat_completeness auto
termination
proof (relation "measure (\<lambda>(e, s). unat e - unat (m_available_block_index s))")
  show "wf (measure (\<lambda>(e, s). unat e - unat (m_available_block_index s)))"
    by simp
next
  fix e :: u32 and s :: "'a SyncingStreamBuffer_scheme"
  assume lt: "m_available_block_index s < e"
  then have "unat (m_available_block_index s + 1) = unat (m_available_block_index s) + 1"
    by unat_arith
  with lt show "((e, (WaitForSync (unat (m_available_block_index s)) s)
              \<lparr>m_available_block_index := m_available_block_index s + 1\<rparr>), (e, s))
        \<in> measure (\<lambda>(e, s). unat e - unat (m_available_block_index s))"
    by (simp add: word_less_nat_alt WaitForSync_def)
qed

definition EnsureSyncsWaitedForOffset ::
  "u32 \<Rightarrow> ('a SyncingStreamBuffer_scheme) \<Rightarrow> error + ('a SyncingStreamBuffer_scheme)" where
  "EnsureSyncsWaitedForOffset offset s =
     (case GetSyncIndexForOffset offset s of
        Inl e \<Rightarrow> Inl e
      | Inr idx \<Rightarrow> EnsureSyncs_loop (min (idx + 1) NUM_SYNC_POINTS) s)"

text \<open>The wrap-around branch of \<^verbatim>\<open>AllocateSpace\<close>, entered when
  \<^verbatim>\<open>(m_position + size) > m_size\<close>.\<close>

definition AllocateSpace_wrap ::
  "u32 \<Rightarrow> ('a SyncingStreamBuffer_scheme) \<Rightarrow> error + ('a SyncingStreamBuffer_scheme)" where
  "AllocateSpace_wrap sz s =
     (case AddSyncsForOffset (m_size s) s of
        Inl e \<Rightarrow> Inl e
      | Inr s1 \<Rightarrow>
          (if \<not> in_bounds 0 s1 then Inl OutOfBounds
           else
             (case EnsureSyncsWaitedForOffset sz
                     ((WaitForSync 0 (s1\<lparr>m_position := 0\<rparr>))\<lparr>m_available_block_index := 1\<rparr>) of
                Inl e \<Rightarrow> Inl e
              | Inr s2 \<Rightarrow> Inr (s2\<lparr>m_used_block_index := 0\<rparr>))))"

definition AllocateSpace ::
  "u32 \<Rightarrow> ('a SyncingStreamBuffer_scheme) \<Rightarrow> error + ('a SyncingStreamBuffer_scheme)" where
  "AllocateSpace sz s =
     (case AddSyncsForOffset (m_position s) s of
        Inl e \<Rightarrow> Inl e
      | Inr s1 \<Rightarrow>
          (case EnsureSyncsWaitedForOffset (m_position s1 + sz) s1 of
             Inl e \<Rightarrow> Inl e
           | Inr s2 \<Rightarrow>
               (if m_position s2 + sz > m_size s2 then AllocateSpace_wrap sz s2
                else Inr s2)))"

text \<open>The constructor: the member initialisers of \<^verbatim>\<open>SyncingStreamBuffer\<close> and
  \<^verbatim>\<open>BufferStorageStreamBuffer\<close>.  \<open>calls\<close> is the GL trace up to the construction.\<close>

definition BufferStorageStreamBuffer_new ::
  "GLenum \<Rightarrow> GLuint \<Rightarrow> u32 \<Rightarrow> nat \<Rightarrow> bool \<Rightarrow> gl_call list \<Rightarrow> BufferStorageStreamBuffer" where
  "BufferStorageStreamBuffer_new target buffer_id sz mapped_ptr coherent calls =
     \<lparr>m_target = target, m_buffer_id = buffer_id, m_size = sz, gl_calls = calls,
      m_position = 0, m_used_block_index = 0, m_available_block_index = NUM_SYNC_POINTS,
      m_bytes_per_block = (sz + NUM_SYNC_POINTS - 1) div NUM_SYNC_POINTS,
      m_sync_objects = replicate (unat NUM_SYNC_POINTS) None,
      gl_syncs_created = 0,
      m_mapped_ptr = mapped_ptr, m_coherent = coherent\<rparr>"

subsection \<open>The persistently mapped backend (\<^verbatim>\<open>BufferStorageStreamBuffer\<close>)\<close>

text \<open>Modelled from the spec: \<^verbatim>\<open>Common::AlignUp\<close> lives in \<^verbatim>\<open>common/align.h\<close>, which is
  not among the sources.  The spec says that \<^verbatim>\<open>Map\<close> ``aligns position up to the requested
  alignment''; the model is the usual rounding
  \<^verbatim>\<open>(value + (alignment - 1)) / alignment * alignment\<close> on \<^verbatim>\<open>u32\<close>, which traps for
  alignment 0.\<close>

definition AlignUp :: "u32 \<Rightarrow> u32 \<Rightarrow> error + u32" where
  "AlignUp v alignment =
     (if alignment = 0 then Inl DivisionByZero
      else Inr ((v + (alignment - 1)) div alignment * alignment))"

definition Map_BufferStorage ::
  "u32 \<Rightarrow> u32 \<Rightarrow> BufferStorageStreamBuffer
     \<Rightarrow> error + (MappingResult \<times> BufferStorageStreamBuffer)" where
  "Map_BufferStorage alignment min_size s =
     (case (if m_position s > 0 then AlignUp (m_position s) alignment
            else Inr (m_position s)) of
        Inl e \<Rightarrow> Inl e
      | Inr p \<Rightarrow>
          (case AllocateSpace min_size (s\<lparr>m_position := p\<rparr>) of
             Inl e \<Rightarrow> Inl e
           | Inr s' \<Rightarrow>
               (if \<not> (m_position s' + min_size
                        \<le> m_available_block_index s' * m_bytes_per_block s')
                  then Inl AssertionFailed
                else if alignment = 0 then Inl DivisionByZero
                else Inr
                  (\<lparr>pointer = MappedPtr (m_mapped_ptr s') (unat (m_position s')),
                    buffer_offset = m_position s',
                    index_aligned = m_position s' div alignment,
                    space_aligned =
                      (m_available_block_index s' * m_bytes_per_block s' - m_position s')
                        div alignment\<rparr>, s'))))"

definition Unmap_BufferStorage ::
  "u32 \<Rightarrow> BufferStorageStreamBuffer \<Rightarrow> error + BufferStorageStreamBuffer" where
  "Unmap_BufferStorage used_size s =
     (if \<not> (m_position s + used_size \<le> m_size s) then Inl AssertionFailed
      else Inr (s\<lparr>gl_calls := gl_calls s @
                     (if \<not> m_coherent s
                      then [BindBuffer (m_target s) (m_buffer_id s),
                            FlushMappedBufferRange (m_target s) (m_position s) used_size]
                      else []),
                  m_position := m_position s + used_size\<rparr>))"

text \<open>Destruction runs \<^verbatim>\<open>~BufferStorageStreamBuffer\<close>, then \<^verbatim>\<open>~SyncingStreamBuffer\<close>, then
  \<^verbatim>\<open>~StreamBuffer\<close>.  The middle one is the loop
  \<^verbatim>\<open>for (u32 i = m_available_block_index; i <= m_used_block_index; i++)\<close>.\<close>

function destroy_syncs_loop ::
  "u32 \<Rightarrow> ('a SyncingStreamBuffer_scheme) \<Rightarrow> error + ('a SyncingStreamBuffer_scheme)" where
  "destroy_syncs_loop i s =
     (if i \<le> m_used_block_index s then
        (if \<not> in_bounds i s then Inl OutOfBounds
         else if m_sync_objects s ! unat i = None then Inl AssertionFailed
         else destroy_syncs_loop (i + 1)
                (s\<lparr>gl_calls := gl_calls s @ [DeleteSync (m_sync_objects s ! unat i)]\<rparr>))
      else Inr s)"
  by pat_completeness auto
termination
proof (relation "measure (\<lambda>(i, s). Suc (unat (m_used_block_index s)) - unat i)")
  show "wf (measure (\<lambda>(i, s). Suc (unat (m_used_block_index s)) - unat i))"
    by simp
next
  fix i :: u32 and s :: "'a SyncingStreamBuffer_scheme"
  assume le: "i \<le> m_used_block_index s" and ib: "\<not> \<not> in_bounds i s"
  from ib have "i < NUM_SYNC_POINTS" by (simp add: in_bounds_def)
  then have "unat (i + 1) = Suc (unat i)" by unat_arith
  then show "((i + 1, s\<lparr>gl_calls := gl_calls s @ [DeleteSync (m_sync_objects s ! unat i)]\<rparr>), (i, s))
        \<in> measure (\<lambda>(i, s). Suc (unat (m_used_block_index s)) - unat i)"
    using le by (simp add: word_le_nat_alt)
qed

definition destroy_SyncingStreamBuffer ::
  "('a SyncingStreamBuffer_scheme) \<Rightarrow> error + ('a SyncingStreamBuffer_scheme)" where
  "destroy_SyncingStreamBuffer s = destroy_syncs_loop (m_available_block_index s) s"

definition destroy_BufferStorage ::
  "BufferStorageStreamBuffer \<Rightarrow> error + BufferStorageStreamBuffer" where
  "destroy_BufferStorage s =
     (case destroy_SyncingStreamBuffer
             (s\<lparr>gl_calls := gl_calls s @
                   [BindBuffer (m_target s) (m_buffer_id s), UnmapBuffer (m_target s)]\<rparr>) of
        Inl e \<Rightarrow> Inl e
      | Inr s' \<Rightarrow> Inr (s'\<lparr>gl_calls := gl_calls s' @ [DeleteBuffers (m_buffer_id s')]\<rparr>))"

subsection \<open>The naive backends (\<^verbatim>\<open>BufferSubDataStreamBuffer\<close>, \<^verbatim>\<open>BufferDataStreamBuffer\<close>)\<close>

text \<open>The two classes declare the same members (the base class and the staging vector
  \<^verbatim>\<open>m_cpu_buffer\<close>), so the one record \<open>NaiveStreamBuffer\<close> serves both; they differ in \<^verbatim>\<open>Unmap\<close>.  \<^verbatim>\<open>m_size / alignment\<close>
  traps for alignment 0.\<close>

definition Map_BufferSubData ::
  "u32 \<Rightarrow> u32 \<Rightarrow> NaiveStreamBuffer \<Rightarrow> error + (MappingResult \<times> NaiveStreamBuffer)" where
  "Map_BufferSubData alignment min_size s =
     (if alignment = 0 then Inl DivisionByZero
      else Inr (\<lparr>pointer = CpuBufferData 0, buffer_offset = 0, index_aligned = 0,
                 space_aligned = m_size s div alignment\<rparr>, s))"


definition Map_BufferData ::
  "u32 \<Rightarrow> u32 \<Rightarrow> NaiveStreamBuffer \<Rightarrow> error + (MappingResult \<times> NaiveStreamBuffer)" where
  "Map_BufferData alignment min_size s =
     (if alignment = 0 then Inl DivisionByZero
      else Inr (\<lparr>pointer = CpuBufferData 0, buffer_offset = 0, index_aligned = 0,
                 space_aligned = m_size s div alignment\<rparr>, s))"


definition NaiveStreamBuffer_new ::
  "GLenum \<Rightarrow> GLuint \<Rightarrow> u32 \<Rightarrow> gl_call list \<Rightarrow> NaiveStreamBuffer" where
  "NaiveStreamBuffer_new target buffer_id sz calls =
     \<lparr>m_target = target, m_buffer_id = buffer_id, m_size = sz, gl_calls = calls,
      m_cpu_buffer = replicate (unat sz) 0\<rparr>"

subsection \<open>Virtual dispatch\<close>

text \<open>A \<^verbatim>\<open>std::unique_ptr<StreamBuffer>\<close> points to one of the three concrete classes.\<close>

datatype stream_buffer =
    Reupload NaiveStreamBuffer
  | Orphan NaiveStreamBuffer
  | PersistentMapped BufferStorageStreamBuffer

fun Map_sb :: "u32 \<Rightarrow> u32 \<Rightarrow> stream_buffer \<Rightarrow> error + (MappingResult \<times> stream_buffer)" where
  "Map_sb a m (Reupload s) = map_sum id (map_prod id Reupload) (Map_BufferSubData a m s)"
| "Map_sb a m (Orphan s) = map_sum id (map_prod id Orphan) (Map_BufferData a m s)"
| "Map_sb a m (PersistentMapped s) =
     map_sum id (map_prod id PersistentMapped) (Map_BufferStorage a m s)"


subsection \<open>Construction and the factory\<close>

text \<open>What the program can observe of the driver while it constructs a buffer: the three
  capability flags, the buffer name \<^verbatim>\<open>glGenBuffers\<close> hands out, the error (if any) each call
  raises, and the pointer \<^verbatim>\<open>glMapBufferRange\<close> returns (\<open>None\<close> for the null pointer).\<close>

record gl_driver =
  GLAD_GL_VERSION_4_4 :: bool
  GLAD_GL_ARB_buffer_storage :: bool
  GLAD_GL_EXT_buffer_storage :: bool
  gen_buffers_id :: GLuint
  gen_buffers_error :: GLenum
  bind_buffer_error :: GLenum
  buffer_data_error :: GLenum
  buffer_storage_error :: GLenum
  map_buffer_range_ptr :: "nat option"

definition GL_NO_ERROR :: GLenum where "GL_NO_ERROR = 0"
definition GL_MAP_WRITE_BIT :: u32 where "GL_MAP_WRITE_BIT = 0x0002"
definition GL_MAP_FLUSH_EXPLICIT_BIT :: u32 where "GL_MAP_FLUSH_EXPLICIT_BIT = 0x0010"
definition GL_MAP_PERSISTENT_BIT :: u32 where "GL_MAP_PERSISTENT_BIT = 0x0040"
definition GL_MAP_COHERENT_BIT :: u32 where "GL_MAP_COHERENT_BIT = 0x0080"

text \<open>The GL error flag keeps the first error until \<^verbatim>\<open>glGetError\<close> reads and clears it.\<close>

definition record_error :: "GLenum \<Rightarrow> GLenum \<Rightarrow> GLenum" where
  "record_error flag e = (if flag = GL_NO_ERROR then e else flag)"

definition Create_BufferSubData ::
  "gl_driver \<Rightarrow> gl_call list \<Rightarrow> GLenum \<Rightarrow> u32
     \<Rightarrow> error + (NaiveStreamBuffer option \<times> gl_call list)" where
  "Create_BufferSubData drv calls target sz =
     (let buffer_id = gen_buffers_id drv;
          calls1 = calls @ [GetError, GenBuffers buffer_id, BindBuffer target buffer_id,
                            BufferData target sz None, GetError];
          err = record_error (record_error (record_error GL_NO_ERROR (gen_buffers_error drv))
                                (bind_buffer_error drv)) (buffer_data_error drv)
      in if err \<noteq> GL_NO_ERROR then Inr (None, calls1 @ [DeleteBuffers buffer_id])
         else Inr (Some (NaiveStreamBuffer_new target buffer_id sz calls1), calls1))"

definition Create_BufferData ::
  "gl_driver \<Rightarrow> gl_call list \<Rightarrow> GLenum \<Rightarrow> u32
     \<Rightarrow> error + (NaiveStreamBuffer option \<times> gl_call list)" where
  "Create_BufferData drv calls target sz =
     (let buffer_id = gen_buffers_id drv;
          calls1 = calls @ [GetError, GenBuffers buffer_id, BindBuffer target buffer_id,
                            BufferData target sz None, GetError];
          err = record_error (record_error (record_error GL_NO_ERROR (gen_buffers_error drv))
                                (bind_buffer_error drv)) (buffer_data_error drv)
      in if err \<noteq> GL_NO_ERROR then Inr (None, calls1 @ [DeleteBuffers buffer_id])
         else Inr (Some (NaiveStreamBuffer_new target buffer_id sz calls1), calls1))"

text \<open>\<^verbatim>\<open>BufferStorageStreamBuffer::Create\<close>.  \<^verbatim>\<open>Assert(mapped_ptr)\<close> is the always-on assertion:
  a null mapping aborts.\<close>

definition Create_BufferStorage ::
  "gl_driver \<Rightarrow> gl_call list \<Rightarrow> GLenum \<Rightarrow> u32 \<Rightarrow> bool
     \<Rightarrow> error + (BufferStorageStreamBuffer option \<times> gl_call list)" where
  "Create_BufferStorage drv calls target sz coherent =
     (let buffer_id = gen_buffers_id drv;
          calls1 = calls @ [GetError, GenBuffers buffer_id, BindBuffer target buffer_id];
          err1 = record_error (record_error GL_NO_ERROR (gen_buffers_error drv))
                   (bind_buffer_error drv);
          flags = or (or GL_MAP_WRITE_BIT GL_MAP_PERSISTENT_BIT)
                     (if coherent then GL_MAP_COHERENT_BIT else 0);
          map_flags = or (or GL_MAP_WRITE_BIT GL_MAP_PERSISTENT_BIT)
                         (if coherent then 0 else GL_MAP_FLUSH_EXPLICIT_BIT);
          (calls2, err) =
            (if GLAD_GL_VERSION_4_4 drv \<or> GLAD_GL_ARB_buffer_storage drv
               then (calls1 @ [BufferStorage target sz flags],
                     record_error err1 (buffer_storage_error drv))
             else if GLAD_GL_EXT_buffer_storage drv
               then (calls1 @ [BufferStorageEXT target sz flags],
                     record_error err1 (buffer_storage_error drv))
             else (calls1, err1));
          calls3 = calls2 @ [GetError]
      in if err \<noteq> GL_NO_ERROR then Inr (None, calls3 @ [DeleteBuffers buffer_id])
         else
           (let calls4 = calls3 @ [MapBufferRange target 0 sz map_flags]
            in case map_buffer_range_ptr drv of
                 None \<Rightarrow> Inl AssertionFailed
               | Some mapped_ptr \<Rightarrow>
                   Inr (Some (BufferStorageStreamBuffer_new target buffer_id sz mapped_ptr
                                coherent calls4), calls4)))"

text \<open>\<^verbatim>\<open>StreamBuffer::Create\<close>.  The vendor branch is under \<^verbatim>\<open>#if 0\<close> and is not compiled; the
  fallback is always \<^verbatim>\<open>BufferDataStreamBuffer\<close>.\<close>

definition Create_StreamBuffer ::
  "gl_driver \<Rightarrow> gl_call list \<Rightarrow> GLenum \<Rightarrow> u32
     \<Rightarrow> error + (stream_buffer option \<times> gl_call list)" where
  "Create_StreamBuffer drv calls target sz =
     (if GLAD_GL_VERSION_4_4 drv \<or> GLAD_GL_ARB_buffer_storage drv
           \<or> GLAD_GL_EXT_buffer_storage drv
      then
        (case Create_BufferStorage drv calls target sz True of
           Inl e \<Rightarrow> Inl e
         | Inr (Some buf, calls') \<Rightarrow> Inr (Some (PersistentMapped buf), calls')
         | Inr (None, calls') \<Rightarrow>
             map_sum id (map_prod (map_option Orphan) id)
               (Create_BufferData drv calls' target sz))
      else map_sum id (map_prod (map_option Orphan) id)
             (Create_BufferData drv calls target sz))"

subsection \<open>Call sequences and observers\<close>

text \<open>A caller is a list of \<^verbatim>\<open>Map\<close> and \<^verbatim>\<open>Unmap\<close> calls; \<open>run\<close> issues them in order against
  the persistently mapped backend, stops at the first failure, and collects what each
  \<^verbatim>\<open>Map\<close> returned.\<close>

datatype call = MapCall u32 u32 | UnmapCall u32

fun run ::
  "call list \<Rightarrow> BufferStorageStreamBuffer
     \<Rightarrow> error + (MappingResult list \<times> BufferStorageStreamBuffer)" where
  "run [] s = Inr ([], s)"
| "run (MapCall a m # cs) s =
     (case Map_BufferStorage a m s of
        Inl e \<Rightarrow> Inl e
      | Inr (r, s') \<Rightarrow> map_sum id (map_prod ((#) r) id) (run cs s'))"
| "run (UnmapCall u # cs) s =
     (case Unmap_BufferStorage u s of
        Inl e \<Rightarrow> Inl e
      | Inr s' \<Rightarrow> run cs s')"

text \<open>The sync objects the driver still holds after a trace: created and not deleted.\<close>

definition track_sync :: "gl_call \<Rightarrow> nat list \<Rightarrow> nat list" where
  "track_sync c live =
     (case c of
        FenceSync h \<Rightarrow> live @ [h]
      | DeleteSync (Some h) \<Rightarrow> removeAll h live
      | _ \<Rightarrow> live)"

definition outstanding_syncs :: "gl_call list \<Rightarrow> nat list" where
  "outstanding_syncs calls = fold track_sync calls []"

fun is_wait :: "gl_call \<Rightarrow> bool" where
  "is_wait (ClientWaitSync h) = True"
| "is_wait c = False"

fun is_fence :: "gl_call \<Rightarrow> bool" where
  "is_fence (FenceSync h) = True"
| "is_fence c = False"


subsection \<open>Invariants of the ring and of its GL trace\<close>

text \<open>The pattern of the fence array: with \<open>U\<close> the used and \<open>A\<close> the available block
  index, slot \<open>i\<close> holds a fence exactly when \<open>i < U\<close> or \<open>A \<le> i\<close>.\<close>

definition slots_ok :: "nat \<Rightarrow> nat \<Rightarrow> GLsync list \<Rightarrow> bool" where
  "slots_ok U A xs \<longleftrightarrow>
     length xs = 16 \<and> list_all (\<lambda>i. (xs ! i \<noteq> None) = (i < U \<or> A \<le> i)) [0..<16]"

text \<open>What holds of a ring between two calls.  The flag \<open>z\<close> says whether zero-sized
  \<^verbatim>\<open>Map\<close> calls are admitted; only they can leave both indices at 16.\<close>

definition ring_inv :: "bool \<Rightarrow> 'a SyncingStreamBuffer_scheme \<Rightarrow> bool" where
  "ring_inv z s \<longleftrightarrow>
     unat (m_size s) = 16 * unat (m_bytes_per_block s)
   \<and> unat (m_size s) \<le> 2 ^ 30
   \<and> unat (m_position s) \<le> unat (m_size s)
   \<and> unat (m_available_block_index s) \<le> 16
   \<and> (unat (m_used_block_index s) < unat (m_available_block_index s)
        \<or> (z \<and> unat (m_used_block_index s) = 16 \<and> unat (m_available_block_index s) = 16))
   \<and> slots_ok (unat (m_used_block_index s)) (unat (m_available_block_index s))
        (m_sync_objects s)"

text \<open>A GL trace treats its sync objects properly when every \<^verbatim>\<open>glClientWaitSync\<close> and
  every \<^verbatim>\<open>glDeleteSync\<close> is given a sync object that an earlier \<^verbatim>\<open>glFenceSync\<close> of the trace
  created and that no earlier \<^verbatim>\<open>glDeleteSync\<close> has deleted, and every \<^verbatim>\<open>glDeleteSync\<close>
  directly follows the \<^verbatim>\<open>glClientWaitSync\<close> on the same object.  \<open>live\<close> are the objects
  alive before the trace, \<open>prev\<close> is the call before it.\<close>

definition sync_call_ok :: "nat list \<Rightarrow> gl_call option \<Rightarrow> gl_call \<Rightarrow> bool" where
  "sync_call_ok live prev c =
     (case c of
        ClientWaitSync x \<Rightarrow> x \<in> Some ` set live
      | DeleteSync x \<Rightarrow> x \<in> Some ` set live \<and> prev = Some (ClientWaitSync x)
      | _ \<Rightarrow> True)"

primrec sync_trace_ok :: "nat list \<Rightarrow> gl_call option \<Rightarrow> gl_call list \<Rightarrow> bool" where
  "sync_trace_ok live prev [] = True"
| "sync_trace_ok live prev (c # cs) =
     (sync_call_ok live prev c \<and> sync_trace_ok (track_sync c live) (Some c) cs)"

definition trace_inv :: "'a SyncingStreamBuffer_scheme \<Rightarrow> bool" where
  "trace_inv s \<longleftrightarrow>
     sync_trace_ok [] None (gl_calls s)
   \<and> set (outstanding_syncs (gl_calls s)) = Option.these (set (m_sync_objects s))
   \<and> (\<forall>h. Some h \<in> set (m_sync_objects s) \<longrightarrow> h < gl_syncs_created s)
   \<and> (\<forall>i j h. i < length (m_sync_objects s) \<and> j < length (m_sync_objects s)
          \<and> m_sync_objects s ! i = Some h \<and> m_sync_objects s ! j = Some h
          \<longrightarrow> i = j)"

text \<open>The callers the invariants are stated for: no \<^verbatim>\<open>Map\<close> asks for more than the
  capacity; where stated, no \<^verbatim>\<open>Map\<close> asks for zero bytes.\<close>

fun within_capacity :: "u32 \<Rightarrow> call \<Rightarrow> bool" where
  "within_capacity cap (MapCall alignment min_size) = (min_size \<le> cap)"
| "within_capacity cap (UnmapCall used_size) = True"

fun nonzero_size :: "call \<Rightarrow> bool" where
  "nonzero_size (MapCall alignment min_size) = (0 < min_size)"
| "nonzero_size (UnmapCall used_size) = True"


section \<open>Evaluation helpers\<close>

lemma replicate_16: "replicate 16 x = [x, x, x, x, x, x, x, x, x, x, x, x, x, x, x, x]"
  by (simp add: numeral_eq_Suc)

lemma concat_replicate_pair:
  "concat (replicate (numeral k) [a, b]) = a # b # concat (replicate (pred_numeral k) [a, b])"
  by (simp add: numeral_eq_Suc)

lemmas ring_eval = BufferStorageStreamBuffer_new_def replicate_16 NUM_SYNC_POINTS_def
  Map_BufferStorage_def Unmap_BufferStorage_def AllocateSpace_def AllocateSpace_wrap_def
  AddSyncsForOffset_def EnsureSyncsWaitedForOffset_def GetSyncIndexForOffset_def AlignUp_def
  in_bounds_def WaitForSync_def concat_replicate_pair

section \<open>Concrete scenarios on the 1 MiB buffer\<close>

text \<open>
  Claim C1.  On a persistently mapped buffer of 1,048,576 bytes (16 blocks of 65,536 bytes),
  seventeen rounds of \<^verbatim>\<open>Map(16, 65536)\<close> / \<^verbatim>\<open>Unmap(65536)\<close>: the first sixteen \<^verbatim>\<open>Map\<close> calls
  return the consecutive block starts and never wait; the second call is the one that puts
  fence 0 on block 0; before the seventeenth call the position is at the end of the buffer, so
  that call takes the wrap-around branch, returns offset 0, and its GL calls wait on fence 0
  (block 0's fence) before it returns.
\<close>

theorem wraparound_on_17th_Map:
  "\<exists>rs1 s1 r2 s2 rs s16 r17 s17.
     run [MapCall 16 65536, UnmapCall 65536]
         (BufferStorageStreamBuffer_new target buffer_id 1048576 mapped_ptr True []) = Inr (rs1, s1)
   \<and> m_sync_objects s1 ! 0 = None
   \<and> Map_BufferStorage 16 65536 s1 = Inr (r2, s2)
   \<and> gl_calls s2 = gl_calls s1 @ [FenceSync 0]
   \<and> m_sync_objects s2 ! 0 = Some 0
   \<and> run (concat (replicate 16 [MapCall 16 65536, UnmapCall 65536]))
         (BufferStorageStreamBuffer_new target buffer_id 1048576 mapped_ptr True []) = Inr (rs, s16)
   \<and> map buffer_offset rs =
         [0, 65536, 131072, 196608, 262144, 327680, 393216, 458752, 524288, 589824, 655360,
          720896, 786432, 851968, 917504, 983040]
   \<and> filter is_wait (gl_calls s16) = []
   \<and> m_sync_objects s16 ! 0 = Some 0
   \<and> m_position s16 = 1048576
   \<and> m_size s16 < m_position s16 + 65536
   \<and> Map_BufferStorage 16 65536 s16 = Inr (r17, s17)
   \<and> buffer_offset r17 = 0
   \<and> m_position s17 = 0
   \<and> gl_calls s17 = gl_calls s16 @
         [FenceSync 15, ClientWaitSync (Some 0), DeleteSync (Some 0),
          ClientWaitSync (Some 1), DeleteSync (Some 1)]"
  by (simp add: ring_eval)

text \<open>
  Claim C4.  On a fresh 1 MiB buffer the first \<^verbatim>\<open>Map(16, 4096)\<close> returns byte offset 0 and
  65,536 (at least 256) sixteen-byte elements, and issues no GL call at all: no fence wait and
  no fence.  Block 0 gets its fence from a later \<^verbatim>\<open>Map\<close>: none of the following fifteen
  \<^verbatim>\<open>Map(16, 4096)\<close> calls issues a GL call either, and the \<^verbatim>\<open>Map\<close> issued once the position
  has reached 65,536 inserts fence 0 into slot 0.
\<close>

theorem first_Map_on_fresh_buffer:
  "\<exists>r s1 rs s17 r' s18.
     Map_BufferStorage 16 4096
       (BufferStorageStreamBuffer_new target buffer_id 1048576 mapped_ptr True []) = Inr (r, s1)
   \<and> buffer_offset r = 0
   \<and> index_aligned r = 0
   \<and> space_aligned r = 65536
   \<and> 256 \<le> space_aligned r
   \<and> gl_calls s1 = []
   \<and> m_sync_objects s1 ! 0 = None
   \<and> run (UnmapCall 4096 # concat (replicate 15 [MapCall 16 4096, UnmapCall 4096])) s1
        = Inr (rs, s17)
   \<and> gl_calls s17 = []
   \<and> m_sync_objects s17 ! 0 = None
   \<and> m_position s17 = 65536
   \<and> Map_BufferStorage 16 4096 s17 = Inr (r', s18)
   \<and> gl_calls s18 = [FenceSync 0]
   \<and> m_sync_objects s18 ! 0 = Some 0"
  by (simp add: ring_eval)

section \<open>Destruction\<close>

text \<open>
  Claim C3 (the code does not do this).  After two rounds of \<^verbatim>\<open>Map(16, 65536)\<close> /
  \<^verbatim>\<open>Unmap(65536)\<close> one fence (handle 0, block 0) is outstanding.  Destroying the buffer
  returns normally, but the loop of \<^verbatim>\<open>~SyncingStreamBuffer\<close> runs from
  \<^verbatim>\<open>m_available_block_index = 16\<close> to \<^verbatim>\<open>m_used_block_index = 1\<close> and so does not run at
  all: the destructor issues no \<^verbatim>\<open>glDeleteSync\<close>, and the fence is still outstanding
  afterwards.
\<close>

theorem destructor_leaks_outstanding_fence:
  "\<exists>rs s s'.
     run [MapCall 16 65536, UnmapCall 65536, MapCall 16 65536, UnmapCall 65536]
         (BufferStorageStreamBuffer_new target buffer_id 1048576 mapped_ptr True []) = Inr (rs, s)
   \<and> m_sync_objects s ! 0 = Some 0
   \<and> outstanding_syncs (gl_calls s) = [0]
   \<and> destroy_BufferStorage s = Inr s'
   \<and> gl_calls s' = gl_calls s @
         [BindBuffer target buffer_id, UnmapBuffer target, DeleteBuffers buffer_id]
   \<and> outstanding_syncs (gl_calls s') = [0]"
  by (simp add: ring_eval destroy_BufferStorage_def destroy_SyncingStreamBuffer_def
      outstanding_syncs_def track_sync_def word_le_nat_alt)

text \<open>The same destructor reads \<^verbatim>\<open>m_sync_objects[16]\<close> when both indices are 16, a state that
  a zero-sized \<^verbatim>\<open>Map\<close> at the end of the buffer produces.\<close>

lemma destructor_reads_past_the_array:
  "\<exists>rs s.
     run [MapCall 16 1048576, UnmapCall 1048576, MapCall 16 0]
         (BufferStorageStreamBuffer_new target buffer_id 1048576 mapped_ptr True []) = Inr (rs, s)
   \<and> m_used_block_index s = 16 \<and> m_available_block_index s = 16
   \<and> destroy_BufferStorage s = Inl OutOfBounds"
  by (simp add: ring_eval destroy_BufferStorage_def destroy_SyncingStreamBuffer_def)

section \<open>Granted regions\<close>

text \<open>
  Claim C6 (the code does not do this for every capacity).  With capacity 1000, which 16 does
  not divide, \<^verbatim>\<open>m_bytes_per_block\<close> is rounded up to 63 and the first \<^verbatim>\<open>Map(1, 1)\<close> on the
  fresh buffer returns offset 0 with 1008 one-byte elements: the granted region ends 8 bytes
  past the capacity.
\<close>

theorem Map_grants_past_capacity:
  "\<exists>r s. Map_BufferStorage 1 1
       (BufferStorageStreamBuffer_new target buffer_id 1000 mapped_ptr coherent calls) = Inr (r, s)
   \<and> m_size s = 1000
   \<and> buffer_offset r = 0
   \<and> space_aligned r = 1008
   \<and> unat (m_size s) < unat (buffer_offset r) + unat (space_aligned r) * 1"
  by (simp add: ring_eval)

section \<open>\<^verbatim>\<open>Unmap\<close>\<close>



text \<open>
  Claim C8.  \<^verbatim>\<open>Unmap(used_size)\<close> of the persistently mapped backend, when the written range
  fits (\<^verbatim>\<open>m_position + used_size <= m_size\<close>, the method's assertion): it returns; the
  position advances by exactly \<open>used_size\<close>; a non-coherent mapping binds the buffer and
  flushes exactly \<open>used_size\<close> bytes from the old position, a coherent one issues no GL call;
  no fence is inserted; both block indices, the fence array and every other member are
  unchanged.
\<close>

theorem Unmap_BufferStorage_frame:
  "unat (m_position s) + unat used_size \<le> unat (m_size s) \<Longrightarrow>
   \<exists>s'. Unmap_BufferStorage used_size s = Inr s'
     \<and> unat (m_position s') = unat (m_position s) + unat used_size
     \<and> gl_calls s' = gl_calls s @
          (if m_coherent s then []
           else [BindBuffer (m_target s) (m_buffer_id s),
                 FlushMappedBufferRange (m_target s) (m_position s) used_size])
     \<and> filter is_fence (gl_calls s') = filter is_fence (gl_calls s)
     \<and> m_used_block_index s' = m_used_block_index s
     \<and> m_available_block_index s' = m_available_block_index s
     \<and> m_sync_objects s' = m_sync_objects s
     \<and> gl_syncs_created s' = gl_syncs_created s
     \<and> s' = s\<lparr>gl_calls := gl_calls s', m_position := m_position s'\<rparr>"
proof -
  assume a: "unat (m_position s) + unat used_size \<le> unat (m_size s)"
  have lt: "unat (m_position s) + unat used_size < 2 ^ 32"
    using a unsigned_less [of "m_size s", where 'a = nat] by simp
  then have u: "unat (m_position s + used_size) = unat (m_position s) + unat used_size"
    by (simp add: unat_add_lem [THEN iffD1])
  with a have "m_position s + used_size \<le> m_size s"
    by (simp add: word_le_nat_alt)
  then show ?thesis using u
    by (simp add: Unmap_BufferStorage_def)
qed

theorem Unmap_BufferStorage_frame_witness:
  "unat (m_position (BufferStorageStreamBuffer_new 0 1 1048576 0 False []))
     + unat (4096 :: u32) \<le> unat (m_size (BufferStorageStreamBuffer_new 0 1 1048576 0 False []))
   \<and> Unmap_BufferStorage 4096 (BufferStorageStreamBuffer_new 0 1 1048576 0 False [])
     = Inr ((BufferStorageStreamBuffer_new 0 1 1048576 0 False
              [BindBuffer 0 1, FlushMappedBufferRange 0 0 4096])\<lparr>m_position := 4096\<rparr>)"
  using Unmap_BufferStorage_frame
          [where s = "BufferStorageStreamBuffer_new 0 1 1048576 0 False []" and used_size = 4096]
  by (auto simp add: BufferStorageStreamBuffer_new_def Unmap_BufferStorage_def)

section \<open>\<^verbatim>\<open>Map\<close> of the naive backends\<close>

text \<open>
  Claim C9.  For both naive backends and every state, \<^verbatim>\<open>Map(alignment, min_size)\<close> with a
  non-zero alignment returns the start of the staging vector, byte offset 0, aligned offset
  0 and exactly \<open>m_size div alignment\<close> elements, and returns the state as it was: no GL
  call (so no wait and no fence) and no member changed.
\<close>

theorem naive_Map_result:
  "alignment \<noteq> 0 \<Longrightarrow>
     Map_BufferSubData alignment min_size s =
       Inr (\<lparr>pointer = CpuBufferData 0, buffer_offset = 0, index_aligned = 0,
             space_aligned = m_size s div alignment\<rparr>, s)
   \<and> Map_BufferData alignment min_size s =
       Inr (\<lparr>pointer = CpuBufferData 0, buffer_offset = 0, index_aligned = 0,
             space_aligned = m_size s div alignment\<rparr>, s)"
  by (simp add: Map_BufferSubData_def Map_BufferData_def)

theorem naive_Map_result_witness:
  "(16::u32) \<noteq> 0
   \<and> Map_BufferSubData 16 4096 (NaiveStreamBuffer_new 0 1 1048576 []) =
       Inr (\<lparr>pointer = CpuBufferData 0, buffer_offset = 0, index_aligned = 0,
             space_aligned = 65536\<rparr>, NaiveStreamBuffer_new 0 1 1048576 [])
   \<and> Map_BufferData 16 4096 (NaiveStreamBuffer_new 0 1 1048576 []) =
       Inr (\<lparr>pointer = CpuBufferData 0, buffer_offset = 0, index_aligned = 0,
             space_aligned = 65536\<rparr>, NaiveStreamBuffer_new 0 1 1048576 [])"
  using naive_Map_result
          [where alignment = 16 and s = "NaiveStreamBuffer_new 0 1 1048576 []"
             and min_size = 4096]
  by (simp add: NaiveStreamBuffer_new_def)

section \<open>Construction and fallback\<close>

text \<open>
  Claim C5, as stated, fails on a null mapping: with buffer storage supported and no GL error
  raised, a \<^verbatim>\<open>glMapBufferRange\<close> that returns the null pointer makes
  \<^verbatim>\<open>BufferStorageStreamBuffer::Create\<close> fail on \<^verbatim>\<open>Assert(mapped_ptr)\<close>, and the factory with
  it; nothing falls back.
\<close>

theorem null_mapping_aborts_construction:
  "Create_BufferStorage
     \<lparr>GLAD_GL_VERSION_4_4 = True, GLAD_GL_ARB_buffer_storage = False,
      GLAD_GL_EXT_buffer_storage = False, gen_buffers_id = 1, gen_buffers_error = 0,
      bind_buffer_error = 0, buffer_data_error = 0, buffer_storage_error = 0,
      map_buffer_range_ptr = None\<rparr> [] 0 1048576 True = Inl AssertionFailed
   \<and> Create_StreamBuffer
     \<lparr>GLAD_GL_VERSION_4_4 = True, GLAD_GL_ARB_buffer_storage = False,
      GLAD_GL_EXT_buffer_storage = False, gen_buffers_id = 1, gen_buffers_error = 0,
      bind_buffer_error = 0, buffer_data_error = 0, buffer_storage_error = 0,
      map_buffer_range_ptr = None\<rparr> [] 0 1048576 = Inl AssertionFailed"
  by (simp add: Create_BufferStorage_def Create_StreamBuffer_def record_error_def GL_NO_ERROR_def)

text \<open>
  Claim C5, amended.  A GL error raised while the buffer is generated, bound or given its
  storage makes the construction of every backend return the empty result.  When buffer
  storage is supported and its construction returns empty, the factory returns what
  \<^verbatim>\<open>BufferDataStreamBuffer::Create\<close> returns (the orphaning backend); when buffer storage is
  not supported it goes to the orphaning backend directly.  When no GL error is raised but
  the mapping is null, the persistent construction and the factory both fail on the
  assertion.
\<close>

theorem construction_failure_fallback:
  "((gen_buffers_error drv \<noteq> GL_NO_ERROR \<or> bind_buffer_error drv \<noteq> GL_NO_ERROR
       \<or> buffer_data_error drv \<noteq> GL_NO_ERROR) \<longrightarrow>
      (\<exists>cs. Create_BufferData drv calls target sz = Inr (None, cs))
    \<and> (\<exists>cs. Create_BufferSubData drv calls target sz = Inr (None, cs)))
   \<and> ((GLAD_GL_VERSION_4_4 drv \<or> GLAD_GL_ARB_buffer_storage drv
          \<or> GLAD_GL_EXT_buffer_storage drv)
        \<and> (gen_buffers_error drv \<noteq> GL_NO_ERROR \<or> bind_buffer_error drv \<noteq> GL_NO_ERROR
          \<or> buffer_storage_error drv \<noteq> GL_NO_ERROR) \<longrightarrow>
      (\<exists>cs. Create_BufferStorage drv calls target sz coherent = Inr (None, cs))
    \<and> (\<exists>cs. Create_BufferStorage drv calls target sz True = Inr (None, cs)
         \<and> Create_StreamBuffer drv calls target sz =
             map_sum id (map_prod (map_option Orphan) id)
               (Create_BufferData drv cs target sz)))
   \<and> (\<not> (GLAD_GL_VERSION_4_4 drv \<or> GLAD_GL_ARB_buffer_storage drv
          \<or> GLAD_GL_EXT_buffer_storage drv) \<longrightarrow>
      Create_StreamBuffer drv calls target sz =
        map_sum id (map_prod (map_option Orphan) id) (Create_BufferData drv calls target sz))
   \<and> ((GLAD_GL_VERSION_4_4 drv \<or> GLAD_GL_ARB_buffer_storage drv
          \<or> GLAD_GL_EXT_buffer_storage drv)
        \<and> gen_buffers_error drv = GL_NO_ERROR \<and> bind_buffer_error drv = GL_NO_ERROR
        \<and> buffer_storage_error drv = GL_NO_ERROR \<and> map_buffer_range_ptr drv = None \<longrightarrow>
      Create_BufferStorage drv calls target sz True = Inl AssertionFailed
      \<and> Create_StreamBuffer drv calls target sz = Inl AssertionFailed)"
  by (auto simp add: Create_BufferStorage_def Create_StreamBuffer_def Create_BufferData_def
        Create_BufferSubData_def record_error_def Let_def)

theorem construction_failure_fallback_witness:
  "GLAD_GL_VERSION_4_4
     \<lparr>GLAD_GL_VERSION_4_4 = True, GLAD_GL_ARB_buffer_storage = False,
      GLAD_GL_EXT_buffer_storage = False, gen_buffers_id = 1, gen_buffers_error = 0,
      bind_buffer_error = 0, buffer_data_error = 0, buffer_storage_error = 1285,
      map_buffer_range_ptr = None\<rparr>
   \<and> Create_BufferStorage
     \<lparr>GLAD_GL_VERSION_4_4 = True, GLAD_GL_ARB_buffer_storage = False,
      GLAD_GL_EXT_buffer_storage = False, gen_buffers_id = 1, gen_buffers_error = 0,
      bind_buffer_error = 0, buffer_data_error = 0, buffer_storage_error = 1285,
      map_buffer_range_ptr = None\<rparr> [] 34962 1048576 True
     = Inr (None, [GetError, GenBuffers 1, BindBuffer 34962 1, BufferStorage 34962 1048576 194,
                   GetError, DeleteBuffers 1])
   \<and> Create_StreamBuffer
     \<lparr>GLAD_GL_VERSION_4_4 = True, GLAD_GL_ARB_buffer_storage = False,
      GLAD_GL_EXT_buffer_storage = False, gen_buffers_id = 1, gen_buffers_error = 0,
      bind_buffer_error = 0, buffer_data_error = 0, buffer_storage_error = 1285,
      map_buffer_range_ptr = None\<rparr> [] 34962 1048576
     = Inr (Some (Orphan (NaiveStreamBuffer_new 34962 1 1048576
              [GetError, GenBuffers 1, BindBuffer 34962 1, BufferStorage 34962 1048576 194,
               GetError, DeleteBuffers 1,
               GetError, GenBuffers 1, BindBuffer 34962 1, BufferData 34962 1048576 None,
               GetError])),
            [GetError, GenBuffers 1, BindBuffer 34962 1, BufferStorage 34962 1048576 194,
             GetError, DeleteBuffers 1,
             GetError, GenBuffers 1, BindBuffer 34962 1, BufferData 34962 1048576 None,
             GetError])"
  using construction_failure_fallback
          [where drv = "\<lparr>GLAD_GL_VERSION_4_4 = True, GLAD_GL_ARB_buffer_storage = False,
      GLAD_GL_EXT_buffer_storage = False, gen_buffers_id = 1, gen_buffers_error = 0,
      bind_buffer_error = 0, buffer_data_error = 0, buffer_storage_error = 1285,
      map_buffer_range_ptr = None\<rparr>" and calls = "[]" and target = 34962 and sz = 1048576]
  by (auto simp add: Create_BufferStorage_def Create_BufferData_def record_error_def Let_def
        GL_NO_ERROR_def GL_MAP_WRITE_BIT_def GL_MAP_PERSISTENT_BIT_def GL_MAP_COHERENT_BIT_def)

section \<open>The loops of the ring\<close>

lemma unat_succ_below: "(x::u32) < e \<Longrightarrow> unat (x + 1) = Suc (unat x)"
  by unat_arith

lemma AddSyncs_loop_spec:
  "AddSyncs_loop e s = Inr s' \<Longrightarrow> unat (m_used_block_index s) \<le> 16 \<Longrightarrow>
   length (m_sync_objects s) = 16 \<Longrightarrow>
     unat (m_used_block_index s') = max (unat (m_used_block_index s)) (unat e)
   \<and> unat (m_used_block_index s') \<le> 16
   \<and> length (m_sync_objects s') = 16
   \<and> (\<forall>i. unat (m_used_block_index s) \<le> i \<and> i < unat e \<longrightarrow>
          m_sync_objects s ! i = None \<and> m_sync_objects s' ! i \<noteq> None)
   \<and> (\<forall>i. \<not> (unat (m_used_block_index s) \<le> i \<and> i < unat e) \<longrightarrow>
          m_sync_objects s' ! i = m_sync_objects s ! i)
   \<and> s' = s\<lparr>m_sync_objects := m_sync_objects s', gl_calls := gl_calls s',
              gl_syncs_created := gl_syncs_created s',
              m_used_block_index := m_used_block_index s'\<rparr>"
proof (induction e s arbitrary: s' rule: AddSyncs_loop.induct)
  case (1 e s)
  show ?case
  proof (cases "m_used_block_index s < e")
    case False
    with "1.prems"(1) have "s' = s" by (subst (asm) AddSyncs_loop.simps) simp
    moreover from False have "unat e \<le> unat (m_used_block_index s)"
      by (simp add: word_less_nat_alt)
    ultimately show ?thesis using "1.prems"(2,3) by (auto simp: max_def)
  next
    case True
    let ?u = "m_used_block_index s"
    let ?s1 = "s\<lparr>m_sync_objects := (m_sync_objects s)[unat ?u := Some (gl_syncs_created s)],
               gl_calls := gl_calls s @ [FenceSync (gl_syncs_created s)],
               gl_syncs_created := Suc (gl_syncs_created s),
               m_used_block_index := ?u + 1\<rparr>"
    from True "1.prems"(1) have ib: "in_bounds ?u s"
      by (subst (asm) AddSyncs_loop.simps) (simp split: if_splits)
    from True "1.prems"(1) ib have nul: "m_sync_objects s ! unat ?u = None"
      by (subst (asm) AddSyncs_loop.simps) (simp split: if_splits)
    from True "1.prems"(1) ib nul have rec: "AddSyncs_loop e ?s1 = Inr s'"
      by (subst (asm) AddSyncs_loop.simps) simp
    have suc: "unat (?u + 1) = Suc (unat ?u)" using True by (rule unat_succ_below)
    have ult: "unat ?u < unat e" using True by (simp add: word_less_nat_alt)
    have u16: "unat ?u < 16" using ib "1.prems"(3) by (simp add: in_bounds_def)
    have IH: "unat (m_used_block_index s') = max (unat (m_used_block_index ?s1)) (unat e)
       \<and> unat (m_used_block_index s') \<le> 16
       \<and> length (m_sync_objects s') = 16
       \<and> (\<forall>i. unat (m_used_block_index ?s1) \<le> i \<and> i < unat e \<longrightarrow>
          m_sync_objects ?s1 ! i = None \<and> m_sync_objects s' ! i \<noteq> None)
       \<and> (\<forall>i. \<not> (unat (m_used_block_index ?s1) \<le> i \<and> i < unat e) \<longrightarrow>
          m_sync_objects s' ! i = m_sync_objects ?s1 ! i)
       \<and> s' = ?s1\<lparr>m_sync_objects := m_sync_objects s', gl_calls := gl_calls s',
              gl_syncs_created := gl_syncs_created s',
              m_used_block_index := m_used_block_index s'\<rparr>"
      by (rule "1.IH" [OF True _ _ rec]) (use ib nul suc u16 "1.prems"(3) in simp_all)
    have a: "unat (m_used_block_index s') = max (unat ?u) (unat e)"
      using IH suc ult by simp
    have b: "\<forall>i. unat ?u \<le> i \<and> i < unat e \<longrightarrow>
          m_sync_objects s ! i = None \<and> m_sync_objects s' ! i \<noteq> None"
    proof (intro allI impI)
      fix i assume i: "unat ?u \<le> i \<and> i < unat e"
      show "m_sync_objects s ! i = None \<and> m_sync_objects s' ! i \<noteq> None"
      proof (cases "i = unat ?u")
        case True
        then have "m_sync_objects s' ! i = m_sync_objects ?s1 ! i" using IH suc by simp
        then show ?thesis using True nul u16 "1.prems"(3) by simp
      next
        case False
        then have "unat (m_used_block_index ?s1) \<le> i \<and> i < unat e" using i suc by simp
        then have "m_sync_objects ?s1 ! i = None \<and> m_sync_objects s' ! i \<noteq> None"
          using IH by blast
        then show ?thesis using False by simp
      qed
    qed
    have c: "\<forall>i. \<not> (unat ?u \<le> i \<and> i < unat e) \<longrightarrow>
          m_sync_objects s' ! i = m_sync_objects s ! i"
    proof (intro allI impI)
      fix i assume i: "\<not> (unat ?u \<le> i \<and> i < unat e)"
      then have "\<not> (unat (m_used_block_index ?s1) \<le> i \<and> i < unat e)" using suc by auto
      then have "m_sync_objects s' ! i = m_sync_objects ?s1 ! i" using IH by blast
      moreover have "i \<noteq> unat ?u" using i ult by auto
      ultimately show "m_sync_objects s' ! i = m_sync_objects s ! i" by simp
    qed
    have d: "s' = s\<lparr>m_sync_objects := m_sync_objects s', gl_calls := gl_calls s',
              gl_syncs_created := gl_syncs_created s',
              m_used_block_index := m_used_block_index s'\<rparr>"
    proof -
      from IH have "s' = ?s1\<lparr>m_sync_objects := m_sync_objects s', gl_calls := gl_calls s',
              gl_syncs_created := gl_syncs_created s',
              m_used_block_index := m_used_block_index s'\<rparr>" by blast
      then show ?thesis by simp
    qed
    from a b c d IH show ?thesis by blast
  qed
qed

lemma EnsureSyncs_loop_spec:
  "EnsureSyncs_loop e s = Inr s' \<Longrightarrow> length (m_sync_objects s) = 16 \<Longrightarrow>
     unat (m_available_block_index s') = max (unat (m_available_block_index s)) (unat e)
   \<and> length (m_sync_objects s') = 16
   \<and> (\<forall>i. unat (m_available_block_index s) \<le> i \<and> i < unat e \<longrightarrow>
          m_sync_objects s ! i \<noteq> None \<and> m_sync_objects s' ! i = None)
   \<and> (\<forall>i. \<not> (unat (m_available_block_index s) \<le> i \<and> i < unat e) \<longrightarrow>
          m_sync_objects s' ! i = m_sync_objects s ! i)
   \<and> s' = s\<lparr>m_sync_objects := m_sync_objects s', gl_calls := gl_calls s',
              m_available_block_index := m_available_block_index s'\<rparr>"
proof (induction e s arbitrary: s' rule: EnsureSyncs_loop.induct)
  case (1 e s)
  show ?case
  proof (cases "m_available_block_index s < e")
    case False
    with "1.prems"(1) have "s' = s" by (subst (asm) EnsureSyncs_loop.simps) simp
    moreover from False have "unat e \<le> unat (m_available_block_index s)"
      by (simp add: word_less_nat_alt)
    ultimately show ?thesis using "1.prems"(2) by (auto simp: max_def)
  next
    case True
    let ?a = "m_available_block_index s"
    let ?s1 = "(WaitForSync (unat ?a) s)\<lparr>m_available_block_index := ?a + 1\<rparr>"
    from True "1.prems"(1) have ib: "in_bounds ?a s"
      by (subst (asm) EnsureSyncs_loop.simps) (simp split: if_splits)
    from True "1.prems"(1) ib have nn: "m_sync_objects s ! unat ?a \<noteq> None"
      by (subst (asm) EnsureSyncs_loop.simps) (simp split: if_splits)
    from True "1.prems"(1) ib nn have rec: "EnsureSyncs_loop e ?s1 = Inr s'"
      by (subst (asm) EnsureSyncs_loop.simps) simp
    have suc: "unat (?a + 1) = Suc (unat ?a)" using True by (rule unat_succ_below)
    have alt: "unat ?a < unat e" using True by (simp add: word_less_nat_alt)
    have a16: "unat ?a < 16" using ib "1.prems"(2) by (simp add: in_bounds_def)
    have s1: "m_available_block_index ?s1 = ?a + 1"
      "m_sync_objects ?s1 = (m_sync_objects s)[unat ?a := None]"
      by (simp_all add: WaitForSync_def)
    have IH: "unat (m_available_block_index s') = max (unat (m_available_block_index ?s1)) (unat e)
       \<and> length (m_sync_objects s') = 16
       \<and> (\<forall>i. unat (m_available_block_index ?s1) \<le> i \<and> i < unat e \<longrightarrow>
          m_sync_objects ?s1 ! i \<noteq> None \<and> m_sync_objects s' ! i = None)
       \<and> (\<forall>i. \<not> (unat (m_available_block_index ?s1) \<le> i \<and> i < unat e) \<longrightarrow>
          m_sync_objects s' ! i = m_sync_objects ?s1 ! i)
       \<and> s' = ?s1\<lparr>m_sync_objects := m_sync_objects s', gl_calls := gl_calls s',
              m_available_block_index := m_available_block_index s'\<rparr>"
      by (rule "1.IH" [OF True _ _ rec]) (use ib nn "1.prems"(2) in \<open>simp_all add: WaitForSync_def\<close>)
    have a: "unat (m_available_block_index s') = max (unat ?a) (unat e)"
      using IH suc alt s1 by simp
    have b: "\<forall>i. unat ?a \<le> i \<and> i < unat e \<longrightarrow>
          m_sync_objects s ! i \<noteq> None \<and> m_sync_objects s' ! i = None"
    proof (intro allI impI)
      fix i assume i: "unat ?a \<le> i \<and> i < unat e"
      show "m_sync_objects s ! i \<noteq> None \<and> m_sync_objects s' ! i = None"
      proof (cases "i = unat ?a")
        case True
        then have "m_sync_objects s' ! i = m_sync_objects ?s1 ! i" using IH suc s1 by simp
        then show ?thesis using True nn a16 "1.prems"(2) s1 by simp
      next
        case False
        then have "unat (m_available_block_index ?s1) \<le> i \<and> i < unat e"
          using i suc s1 by simp
        then have "m_sync_objects ?s1 ! i \<noteq> None \<and> m_sync_objects s' ! i = None"
          using IH by blast
        then show ?thesis using False s1 by simp
      qed
    qed
    have c: "\<forall>i. \<not> (unat ?a \<le> i \<and> i < unat e) \<longrightarrow>
          m_sync_objects s' ! i = m_sync_objects s ! i"
    proof (intro allI impI)
      fix i assume i: "\<not> (unat ?a \<le> i \<and> i < unat e)"
      then have "\<not> (unat (m_available_block_index ?s1) \<le> i \<and> i < unat e)"
        using suc s1 by auto
      then have "m_sync_objects s' ! i = m_sync_objects ?s1 ! i" using IH by blast
      moreover have "i \<noteq> unat ?a" using i alt by auto
      ultimately show "m_sync_objects s' ! i = m_sync_objects s ! i" using s1 by simp
    qed
    have d: "s' = s\<lparr>m_sync_objects := m_sync_objects s', gl_calls := gl_calls s',
              m_available_block_index := m_available_block_index s'\<rparr>"
    proof -
      from IH have "s' = ?s1\<lparr>m_sync_objects := m_sync_objects s', gl_calls := gl_calls s',
              m_available_block_index := m_available_block_index s'\<rparr>" by blast
      then show ?thesis by (simp add: WaitForSync_def)
    qed
    from a b c d IH show ?thesis by blast
  qed
qed

lemma unat_min_u32: "unat (min (a::u32) b) = min (unat a) (unat b)"
  by (simp add: min_def word_le_nat_alt)

lemma bytes_per_block_exact:
  assumes "16 dvd unat (sz::u32)" "unat sz \<le> 2 ^ 30"
  shows "16 * unat ((sz + NUM_SYNC_POINTS - 1) div NUM_SYNC_POINTS) = unat sz"
proof -
  have e: "sz + 16 - 1 = sz + 15" by simp
  have "unat (sz + 15) = unat sz + 15"
    using assms(2) by (simp add: unat_add_lem [THEN iffD1])
  then have "unat ((sz + 15) div 16) = (unat sz + 15) div 16"
    by (simp add: unat_div)
  moreover have "16 * ((unat sz + 15) div 16) = unat sz" using assms(1) by presburger
  ultimately have "16 * unat ((sz + 15) div 16) = unat sz" by (simp only:)
  then show ?thesis unfolding NUM_SYNC_POINTS_def e .
qed

section \<open>The GL trace of the ring\<close>

lemma sync_trace_ok_append:
  "sync_trace_ok live prev (cs @ ds) =
     (sync_trace_ok live prev cs
      \<and> sync_trace_ok (fold track_sync cs live) (if cs = [] then prev else Some (last cs)) ds)"
  by (induction cs arbitrary: live prev) auto

lemma outstanding_syncs_append:
  "outstanding_syncs (cs @ ds) = fold track_sync ds (outstanding_syncs cs)"
  by (simp add: outstanding_syncs_def)

lemma these_update_Some:
  assumes "i < length xs" "xs ! i = None"
  shows "Option.these (set (xs[i := Some n])) = insert n (Option.these (set xs))"
proof (rule set_eqI)
  fix k
  have sub: "set (xs[i := Some n]) \<subseteq> insert (Some n) (set xs)"
    by (rule set_update_subset_insert)
  have mem: "Some n \<in> set (xs[i := Some n])" using assms(1) by (simp add: set_update_memI)
  show "k \<in> Option.these (set (xs[i := Some n])) \<longleftrightarrow> k \<in> insert n (Option.these (set xs))"
  proof
    assume "k \<in> Option.these (set (xs[i := Some n]))"
    then have "Some k \<in> set (xs[i := Some n])" by (simp add: in_these_eq)
    with sub have "Some k = Some n \<or> Some k \<in> set xs" by auto
    then show "k \<in> insert n (Option.these (set xs))" by (auto simp add: in_these_eq)
  next
    assume "k \<in> insert n (Option.these (set xs))"
    then have "k = n \<or> Some k \<in> set xs" by (auto simp add: in_these_eq)
    then have "Some k \<in> set (xs[i := Some n])"
    proof
      assume "k = n" with mem show ?thesis by simp
    next
      assume "Some k \<in> set xs"
      then obtain j where j: "j < length xs" "xs ! j = Some k"
        by (auto simp add: in_set_conv_nth)
      with assms(2) have "j \<noteq> i" by auto
      with j have "xs[i := Some n] ! j = Some k" by simp
      with j(1) show ?thesis by (metis length_list_update nth_mem)
    qed
    then show "k \<in> Option.these (set (xs[i := Some n]))" by (simp add: in_these_eq)
  qed
qed

lemma these_update_None:
  assumes "i < length xs" "xs ! i = Some h"
    and inj: "\<forall>i j h. i < length xs \<and> j < length xs \<and> xs ! i = Some h \<and> xs ! j = Some h
                \<longrightarrow> i = j"
  shows "Option.these (set (xs[i := None])) = Option.these (set xs) - {h}"
proof (rule set_eqI)
  fix k
  show "k \<in> Option.these (set (xs[i := None])) \<longleftrightarrow> k \<in> Option.these (set xs) - {h}"
  proof
    assume "k \<in> Option.these (set (xs[i := None]))"
    then have "Some k \<in> set (xs[i := None])" by (simp add: in_these_eq)
    then obtain j where j: "j < length xs" "xs[i := None] ! j = Some k"
      by (auto simp add: in_set_conv_nth)
    then have ji: "j \<noteq> i" using assms(1) by auto
    with j have xj: "xs ! j = Some k" by simp
    have "k \<noteq> h"
    proof
      assume "k = h"
      with xj assms(2) have "xs ! j = Some h" "xs ! i = Some h" by simp_all
      with inj j(1) assms(1) have "j = i" by blast
      with ji show False by simp
    qed
    moreover have "Some k \<in> set xs" using xj j(1) by (metis nth_mem)
    ultimately show "k \<in> Option.these (set xs) - {h}" by (simp add: in_these_eq)
  next
    assume "k \<in> Option.these (set xs) - {h}"
    then have "Some k \<in> set xs" "k \<noteq> h" by (simp_all add: in_these_eq)
    then obtain j where j: "j < length xs" "xs ! j = Some k"
      by (auto simp add: in_set_conv_nth)
    with assms(2) \<open>k \<noteq> h\<close> have "j \<noteq> i" by auto
    with j have "xs[i := None] ! j = Some k" by simp
    with j(1) have "Some k \<in> set (xs[i := None])" by (metis length_list_update nth_mem)
    then show "k \<in> Option.these (set (xs[i := None]))" by (simp add: in_these_eq)
  qed
qed

lemma trace_inv_fence:
  assumes t: "trace_inv t" and u: "u < length (m_sync_objects t)"
    and n: "m_sync_objects t ! u = None"
  shows "trace_inv (t\<lparr>m_sync_objects := (m_sync_objects t)[u := Some (gl_syncs_created t)],
                      gl_calls := gl_calls t @ [FenceSync (gl_syncs_created t)],
                      gl_syncs_created := Suc (gl_syncs_created t),
                      m_used_block_index := w\<rparr>)"
proof -
  let ?xs = "m_sync_objects t"
  let ?n = "gl_syncs_created t"
  from t have ok: "sync_trace_ok [] None (gl_calls t)"
    and out: "set (outstanding_syncs (gl_calls t)) = Option.these (set ?xs)"
    and lt: "\<And>h. Some h \<in> set ?xs \<Longrightarrow> h < ?n"
    and inj: "\<And>i j h. i < length ?xs \<Longrightarrow> j < length ?xs \<Longrightarrow> ?xs ! i = Some h \<Longrightarrow>
                ?xs ! j = Some h \<Longrightarrow> i = j"
    by (auto simp add: trace_inv_def)
  have a: "sync_trace_ok [] None (gl_calls t @ [FenceSync ?n])"
    using ok by (simp add: sync_trace_ok_append sync_call_ok_def)
  have b: "set (outstanding_syncs (gl_calls t @ [FenceSync ?n]))
            = Option.these (set (?xs[u := Some ?n]))"
    using out by (simp add: outstanding_syncs_append track_sync_def these_update_Some [OF u n])
  have c: "\<And>h. Some h \<in> set (?xs[u := Some ?n]) \<Longrightarrow> h < Suc ?n"
  proof -
    fix h assume "Some h \<in> set (?xs[u := Some ?n])"
    then have "Some h = Some ?n \<or> Some h \<in> set ?xs"
      using set_update_subset_insert [of ?xs u "Some ?n"] by auto
    then show "h < Suc ?n" using lt by (auto simp add: less_Suc_eq)
  qed
  have d: "\<And>i j h. i < length ?xs \<Longrightarrow> j < length ?xs \<Longrightarrow>
             ?xs[u := Some ?n] ! i = Some h \<Longrightarrow>
             ?xs[u := Some ?n] ! j = Some h \<Longrightarrow> i = j"
  proof -
    fix i j h assume ij: "i < length ?xs" "j < length ?xs"
      and ei: "?xs[u := Some ?n] ! i = Some h"
      and ej: "?xs[u := Some ?n] ! j = Some h"
    have fresh: "\<And>k. k < length ?xs \<Longrightarrow> ?xs ! k \<noteq> Some ?n"
    proof
      fix k assume "k < length ?xs" "?xs ! k = Some ?n"
      then have "Some ?n \<in> set ?xs" by (metis nth_mem)
      then have "?n < ?n" by (rule lt)
      then show False by simp
    qed
    show "i = j"
    proof (cases "i = u")
      case True
      show ?thesis
      proof (cases "j = u")
        case True with \<open>i = u\<close> show ?thesis by simp
      next
        case False
        with True ei ej ij u have "?xs ! j = Some ?n" by simp
        with fresh [OF ij(2)] show ?thesis by simp
      qed
    next
      case False
      show ?thesis
      proof (cases "j = u")
        case True
        with False ei ej ij u have "?xs ! i = Some ?n" by simp
        with fresh [OF ij(1)] show ?thesis by simp
      next
        case jf: False
        with False ei ej have "?xs ! i = Some h" "?xs ! j = Some h" by simp_all
        with ij show ?thesis by (rule inj)
      qed
    qed
  qed
  show ?thesis
    unfolding trace_inv_def using a b c d by auto
qed

lemma trace_inv_wait:
  assumes t: "trace_inv t" and i: "i < length (m_sync_objects t)"
    and n: "m_sync_objects t ! i \<noteq> None"
  shows "trace_inv ((WaitForSync i t)\<lparr>m_available_block_index := w\<rparr>)"
proof -
  let ?xs = "m_sync_objects t"
  from n obtain h where h: "?xs ! i = Some h" by auto
  from t have ok: "sync_trace_ok [] None (gl_calls t)"
    and out: "set (outstanding_syncs (gl_calls t)) = Option.these (set ?xs)"
    and lt: "\<And>h. Some h \<in> set ?xs \<Longrightarrow> h < gl_syncs_created t"
    and inj: "\<forall>i j h. i < length ?xs \<and> j < length ?xs \<and> ?xs ! i = Some h \<and> ?xs ! j = Some h
                \<longrightarrow> i = j"
    by (auto simp add: trace_inv_def)
  have live: "h \<in> set (outstanding_syncs (gl_calls t))"
    using out h i by (metis in_these_eq nth_mem)
  have a: "sync_trace_ok [] None (gl_calls t @ [ClientWaitSync (Some h), DeleteSync (Some h)])"
    using ok live
    by (simp add: sync_trace_ok_append sync_call_ok_def track_sync_def outstanding_syncs_def)
  have b: "set (outstanding_syncs (gl_calls t @ [ClientWaitSync (Some h), DeleteSync (Some h)]))
            = Option.these (set (?xs[i := None]))"
    using out by (simp add: outstanding_syncs_append track_sync_def these_update_None [OF i h inj])
  have c: "\<And>k. Some k \<in> set (?xs[i := None]) \<Longrightarrow> k < gl_syncs_created t"
  proof -
    fix k assume "Some k \<in> set (?xs[i := None])"
    then have "Some k \<in> set ?xs"
      using set_update_subset_insert [of ?xs i None] by auto
    then show "k < gl_syncs_created t" by (rule lt)
  qed
  have d: "\<And>a b k. a < length ?xs \<Longrightarrow> b < length ?xs \<Longrightarrow>
             ?xs[i := None] ! a = Some k \<Longrightarrow>
             ?xs[i := None] ! b = Some k \<Longrightarrow> a = b"
  proof -
    fix a b k assume ab: "a < length ?xs" "b < length ?xs"
      and ea: "?xs[i := None] ! a = Some k"
      and eb: "?xs[i := None] ! b = Some k"
    from ea ab have ai: "a \<noteq> i" by auto
    from eb ab have bi: "b \<noteq> i" by auto
    from ai bi ea eb have "?xs ! a = Some k" "?xs ! b = Some k" by simp_all
    with ab inj show "a = b" by blast
  qed
  show ?thesis
    unfolding trace_inv_def using a b c d h
    by (auto simp add: WaitForSync_def)
qed

lemma trace_inv_cong:
  "m_sync_objects t = m_sync_objects s \<Longrightarrow> gl_calls t = gl_calls s \<Longrightarrow>
   gl_syncs_created t = gl_syncs_created s \<Longrightarrow> trace_inv t = trace_inv s"
  by (simp add: trace_inv_def)

lemma AddSyncs_loop_trace:
  "AddSyncs_loop e s = Inr s' \<Longrightarrow> trace_inv s \<Longrightarrow> trace_inv s'"
proof (induction e s arbitrary: s' rule: AddSyncs_loop.induct)
  case (1 e s)
  show ?case
  proof (cases "m_used_block_index s < e")
    case False
    with "1.prems"(1) have "s' = s" by (subst (asm) AddSyncs_loop.simps) simp
    then show ?thesis using "1.prems"(2) by simp
  next
    case True
    let ?u = "m_used_block_index s"
    let ?s1 = "s\<lparr>m_sync_objects := (m_sync_objects s)[unat ?u := Some (gl_syncs_created s)],
               gl_calls := gl_calls s @ [FenceSync (gl_syncs_created s)],
               gl_syncs_created := Suc (gl_syncs_created s),
               m_used_block_index := ?u + 1\<rparr>"
    from True "1.prems"(1) have ib: "in_bounds ?u s"
      by (subst (asm) AddSyncs_loop.simps) (simp split: if_splits)
    from True "1.prems"(1) ib have nul: "m_sync_objects s ! unat ?u = None"
      by (subst (asm) AddSyncs_loop.simps) (simp split: if_splits)
    from True "1.prems"(1) ib nul have rec: "AddSyncs_loop e ?s1 = Inr s'"
      by (subst (asm) AddSyncs_loop.simps) simp
    have "trace_inv ?s1"
      using "1.prems"(2) ib nul by (intro trace_inv_fence) (simp_all add: in_bounds_def)
    then show ?thesis
      by (rule "1.IH" [OF True _ _ rec, rotated -1]) (use ib nul in simp_all)
  qed
qed

lemma EnsureSyncs_loop_trace:
  "EnsureSyncs_loop e s = Inr s' \<Longrightarrow> trace_inv s \<Longrightarrow> trace_inv s'"
proof (induction e s arbitrary: s' rule: EnsureSyncs_loop.induct)
  case (1 e s)
  show ?case
  proof (cases "m_available_block_index s < e")
    case False
    with "1.prems"(1) have "s' = s" by (subst (asm) EnsureSyncs_loop.simps) simp
    then show ?thesis using "1.prems"(2) by simp
  next
    case True
    let ?a = "m_available_block_index s"
    let ?s1 = "(WaitForSync (unat ?a) s)\<lparr>m_available_block_index := ?a + 1\<rparr>"
    from True "1.prems"(1) have ib: "in_bounds ?a s"
      by (subst (asm) EnsureSyncs_loop.simps) (simp split: if_splits)
    from True "1.prems"(1) ib have nn: "m_sync_objects s ! unat ?a \<noteq> None"
      by (subst (asm) EnsureSyncs_loop.simps) (simp split: if_splits)
    from True "1.prems"(1) ib nn have rec: "EnsureSyncs_loop e ?s1 = Inr s'"
      by (subst (asm) EnsureSyncs_loop.simps) simp
    have "trace_inv ?s1"
      using "1.prems"(2) ib nn by (intro trace_inv_wait) (simp_all add: in_bounds_def)
    then show ?thesis
      by (rule "1.IH" [OF True _ _ rec, rotated -1]) (use ib nn in simp_all)
  qed
qed

section \<open>The ring invariant\<close>

lemma slots_ok_iff:
  "slots_ok U A xs \<longleftrightarrow> length xs = 16 \<and> (\<forall>i<16. (xs ! i \<noteq> None) = (i < U \<or> A \<le> i))"
  by (auto simp add: slots_ok_def list_all_iff)

lemma AddSyncs_frame:
  "s' = s\<lparr>m_sync_objects := a, gl_calls := b, gl_syncs_created := c,
          m_used_block_index := d\<rparr> \<Longrightarrow>
   m_size s' = m_size s \<and> m_bytes_per_block s' = m_bytes_per_block s
   \<and> m_position s' = m_position s
   \<and> m_available_block_index s' = m_available_block_index s"
  by simp

lemma EnsureSyncs_frame:
  "s' = s\<lparr>m_sync_objects := a, gl_calls := b, m_available_block_index := d\<rparr> \<Longrightarrow>
   m_size s' = m_size s \<and> m_bytes_per_block s' = m_bytes_per_block s
   \<and> m_position s' = m_position s
   \<and> m_used_block_index s' = m_used_block_index s"
  by simp

lemma GetSyncIndexForOffset_Inr:
  "GetSyncIndexForOffset off s = Inr i \<Longrightarrow>
     0 < unat (m_bytes_per_block s) \<and> unat i = unat off div unat (m_bytes_per_block s)"
  by (auto simp add: GetSyncIndexForOffset_def unat_div unat_gt_0 split: if_splits)

lemma AddSyncsForOffset_slots:
  assumes run: "AddSyncsForOffset off s = Inr s'"
    and sl: "slots_ok (unat (m_used_block_index s)) A (m_sync_objects s)"
    and UA: "unat (m_used_block_index s) \<le> A" "A \<le> 16"
  shows "0 < unat (m_bytes_per_block s)
     \<and> unat off div unat (m_bytes_per_block s) \<le> A
     \<and> unat (m_used_block_index s') =
          max (unat (m_used_block_index s)) (unat off div unat (m_bytes_per_block s))
     \<and> slots_ok (unat (m_used_block_index s')) A (m_sync_objects s')
     \<and> m_size s' = m_size s \<and> m_bytes_per_block s' = m_bytes_per_block s
     \<and> m_position s' = m_position s
     \<and> m_available_block_index s' = m_available_block_index s
     \<and> (trace_inv s \<longrightarrow> trace_inv s')"
proof -
  let ?U = "unat (m_used_block_index s)"
  let ?B = "unat (m_bytes_per_block s)"
  from run obtain e where ge: "GetSyncIndexForOffset off s = Inr e"
    and lp: "AddSyncs_loop e s = Inr s'"
    by (auto simp add: AddSyncsForOffset_def split: sum.splits)
  from ge have B: "0 < ?B" and e: "unat e = unat off div ?B"
    using GetSyncIndexForOffset_Inr by blast+
  from sl have len: "length (m_sync_objects s) = 16"
    and pat: "\<And>i. i < 16 \<Longrightarrow> (m_sync_objects s ! i \<noteq> None) = (i < ?U \<or> A \<le> i)"
    by (simp_all add: slots_ok_iff)
  from UA have U16: "?U \<le> 16" by simp
  note L = AddSyncs_loop_spec [OF lp U16 len]
  from L have u': "unat (m_used_block_index s') = max ?U (unat e)"
    and u'16: "unat (m_used_block_index s') \<le> 16"
    and len': "length (m_sync_objects s') = 16"
    and new: "\<And>i. ?U \<le> i \<Longrightarrow> i < unat e \<Longrightarrow>
                m_sync_objects s ! i = None \<and> m_sync_objects s' ! i \<noteq> None"
    and old: "\<And>i. \<not> (?U \<le> i \<and> i < unat e) \<Longrightarrow>
                m_sync_objects s' ! i = m_sync_objects s ! i"
    and fr: "s' = s\<lparr>m_sync_objects := m_sync_objects s', gl_calls := gl_calls s',
              gl_syncs_created := gl_syncs_created s',
              m_used_block_index := m_used_block_index s'\<rparr>"
    by blast+
  have e16: "unat e \<le> 16" using u' u'16 by simp
  have eA: "unat e \<le> A"
  proof (cases "?U < unat e")
    case False
    then show ?thesis using UA by simp
  next
    case True
    then have "m_sync_objects s ! (unat e - 1) = None" using new [of "unat e - 1"] by simp
    moreover have "unat e - 1 < 16" using e16 True by simp
    ultimately have "\<not> A \<le> unat e - 1" using pat [of "unat e - 1"] by simp
    then show ?thesis by simp
  qed
  have "slots_ok (max ?U (unat e)) A (m_sync_objects s')"
    unfolding slots_ok_iff
  proof (intro conjI allI impI)
    show "length (m_sync_objects s') = 16" by (rule len')
  next
    fix i :: nat assume i: "i < 16"
    show "(m_sync_objects s' ! i \<noteq> None) = (i < max ?U (unat e) \<or> A \<le> i)"
    proof (cases "?U \<le> i \<and> i < unat e")
      case True
      then show ?thesis using new [of i] by simp
    next
      case False
      then have "m_sync_objects s' ! i = m_sync_objects s ! i" by (rule old)
      then show ?thesis using pat [OF i] False eA by auto
    qed
  qed
  then show ?thesis using B e eA u' AddSyncs_frame [OF fr] AddSyncs_loop_trace [OF lp] by simp
qed

lemma EnsureSyncsWaitedForOffset_slots:
  assumes run: "EnsureSyncsWaitedForOffset off s = Inr s'"
    and sl: "slots_ok U (unat (m_available_block_index s)) (m_sync_objects s)"
    and UA: "U \<le> unat (m_available_block_index s)"
    and off: "unat off < 2 ^ 32 - 1"
  shows "0 < unat (m_bytes_per_block s)
     \<and> unat (m_available_block_index s') =
          max (unat (m_available_block_index s))
              (min (unat off div unat (m_bytes_per_block s) + 1) 16)
     \<and> slots_ok U (unat (m_available_block_index s')) (m_sync_objects s')
     \<and> m_size s' = m_size s \<and> m_bytes_per_block s' = m_bytes_per_block s
     \<and> m_position s' = m_position s
     \<and> m_used_block_index s' = m_used_block_index s
     \<and> (trace_inv s \<longrightarrow> trace_inv s')"
proof -
  let ?A = "unat (m_available_block_index s)"
  let ?B = "unat (m_bytes_per_block s)"
  from run obtain idx where ge: "GetSyncIndexForOffset off s = Inr idx"
    and lp: "EnsureSyncs_loop (min (idx + 1) NUM_SYNC_POINTS) s = Inr s'"
    by (auto simp add: EnsureSyncsWaitedForOffset_def split: sum.splits)
  from ge have B: "0 < ?B" and idx: "unat idx = unat off div ?B"
    using GetSyncIndexForOffset_Inr by blast+
  have "unat off div ?B \<le> unat off" by (rule div_le_dividend)
  then have "unat idx + 1 < 2 ^ 32" using idx off by arith
  then have "unat (idx + 1) = unat idx + 1"
    by (simp add: unat_add_lem [THEN iffD1])
  then have e: "unat (min (idx + 1) NUM_SYNC_POINTS) = min (unat off div ?B + 1) 16"
    by (simp add: unat_min_u32 NUM_SYNC_POINTS_def idx)
  let ?e = "min (unat off div ?B + 1) 16"
  from sl have len: "length (m_sync_objects s) = 16"
    and pat: "\<And>i. i < 16 \<Longrightarrow> (m_sync_objects s ! i \<noteq> None) = (i < U \<or> ?A \<le> i)"
    by (simp_all add: slots_ok_iff)
  note L = EnsureSyncs_loop_spec [OF lp len, unfolded e]
  from L have a': "unat (m_available_block_index s') = max ?A ?e"
    and len': "length (m_sync_objects s') = 16"
    and new: "\<And>i. ?A \<le> i \<Longrightarrow> i < ?e \<Longrightarrow>
                m_sync_objects s ! i \<noteq> None \<and> m_sync_objects s' ! i = None"
    and old: "\<And>i. \<not> (?A \<le> i \<and> i < ?e) \<Longrightarrow>
                m_sync_objects s' ! i = m_sync_objects s ! i"
    and fr: "s' = s\<lparr>m_sync_objects := m_sync_objects s', gl_calls := gl_calls s',
              m_available_block_index := m_available_block_index s'\<rparr>"
    by blast+
  have "slots_ok U (max ?A ?e) (m_sync_objects s')"
    unfolding slots_ok_iff
  proof (intro conjI allI impI)
    show "length (m_sync_objects s') = 16" by (rule len')
  next
    fix i :: nat assume i: "i < 16"
    show "(m_sync_objects s' ! i \<noteq> None) = (i < U \<or> max ?A ?e \<le> i)"
    proof (cases "?A \<le> i \<and> i < ?e")
      case True
      then show ?thesis using new [of i] UA by auto
    next
      case False
      then have "m_sync_objects s' ! i = m_sync_objects s ! i" by (rule old)
      then show ?thesis using pat [OF i] False UA by auto
    qed
  qed
  then show ?thesis using B a' EnsureSyncs_frame [OF fr] EnsureSyncs_loop_trace [OF lp]
    by simp
qed

lemma block_cover:
  assumes "0 < (B::nat)"
  shows "x \<le> min (x div B + 1) 16 * B \<or> 16 * B < x"
proof -
  have "x < (x div B + 1) * B" using assms by (simp add: dividend_less_div_times add.commute)
  then show ?thesis by (cases "x div B + 1 \<le> 16") (auto simp add: min_def)
qed

lemma AllocateSpace_wrap_inv:
  assumes run: "AllocateSpace_wrap m s = Inr s'"
    and sz: "unat (m_size s) = 16 * unat (m_bytes_per_block s)" "unat (m_size s) \<le> 2 ^ 30"
    and sl: "slots_ok (unat (m_used_block_index s)) 16 (m_sync_objects s)"
    and U: "unat (m_used_block_index s) \<le> 16"
    and m: "unat m \<le> unat (m_size s)"
  shows "ring_inv z s' \<and> m_position s' = 0
     \<and> unat m \<le> unat (m_available_block_index s') * unat (m_bytes_per_block s')
     \<and> m_size s' = m_size s \<and> m_bytes_per_block s' = m_bytes_per_block s
     \<and> (trace_inv s \<longrightarrow> trace_inv s')"
proof -
  let ?B = "unat (m_bytes_per_block s)"
  from run obtain s3 where a3: "AddSyncsForOffset (m_size s) s = Inr s3"
    by (auto simp add: AllocateSpace_wrap_def split: sum.splits)
  let ?s4 = "(WaitForSync 0 (s3\<lparr>m_position := 0\<rparr>))\<lparr>m_available_block_index := 1\<rparr>"
  from run a3 obtain s5 where e5: "EnsureSyncsWaitedForOffset m ?s4 = Inr s5"
    and s': "s' = s5\<lparr>m_used_block_index := 0\<rparr>"
    by (auto simp add: AllocateSpace_wrap_def split: sum.splits if_splits)
  note A = AddSyncsForOffset_slots [OF a3 sl U order_refl]
  from A have B: "0 < ?B" 
    and u3: "unat (m_used_block_index s3) = max (unat (m_used_block_index s)) (unat (m_size s) div ?B)"
    and sl3: "slots_ok (unat (m_used_block_index s3)) 16 (m_sync_objects s3)"
    by blast+
  from A have fr3: "m_size s3 = m_size s \<and> m_bytes_per_block s3 = m_bytes_per_block s"
    by blast
  have "unat (m_size s) div ?B = 16" using sz(1) B by simp
  with u3 U have u3': "unat (m_used_block_index s3) = 16" by simp
  have sl4: "slots_ok 0 (unat (m_available_block_index ?s4)) (m_sync_objects ?s4)"
    using sl3 unfolding u3' slots_ok_iff
    by (auto simp add: WaitForSync_def nth_list_update)
  have m32: "unat m < 2 ^ 32 - 1" using m sz(2) by simp
  have ua4: "0 \<le> unat (m_available_block_index ?s4)" by simp
  note E = EnsureSyncsWaitedForOffset_slots [OF e5 sl4 ua4 m32]
  have fr4: "m_bytes_per_block ?s4 = m_bytes_per_block s" "m_size ?s4 = m_size s"
    "unat (m_available_block_index ?s4) = 1" "m_position ?s4 = 0"
    using fr3 by (simp_all add: WaitForSync_def)
  from E have "unat (m_available_block_index s5) =
      max (unat (m_available_block_index ?s4))
          (min (unat m div unat (m_bytes_per_block ?s4) + 1) 16)"
    by blast
  then have a5: "unat (m_available_block_index s5) = max 1 (min (unat m div ?B + 1) 16)"
    by (simp only: fr4)
  from E have sl5: "slots_ok 0 (unat (m_available_block_index s5)) (m_sync_objects s5)"
    by blast
  from E have fr5: "m_size s5 = m_size ?s4 \<and> m_bytes_per_block s5 = m_bytes_per_block ?s4
     \<and> m_position s5 = m_position ?s4"
    by blast
  have cov: "unat m \<le> unat (m_available_block_index s5) * ?B"
  proof -
    from block_cover [OF B, of "unat m"] m sz(1)
    have "unat m \<le> min (unat m div ?B + 1) 16 * ?B" by auto
    also have "\<dots> \<le> unat (m_available_block_index s5) * ?B"
      unfolding a5 by (rule mult_le_mono1) simp
    finally show ?thesis .
  qed
  have tr: "trace_inv s \<longrightarrow> trace_inv s'"
  proof
    assume "trace_inv s"
    with A have t3: "trace_inv s3" by blast
    have nn: "m_sync_objects s3 ! 0 \<noteq> None"
      using sl3 unfolding u3' slots_ok_iff by simp
    have len3: "0 < length (m_sync_objects s3)" using sl3 by (simp add: slots_ok_iff)
    have "trace_inv (s3\<lparr>m_position := 0\<rparr>)"
      using t3 by (simp add: trace_inv_cong [of "s3\<lparr>m_position := 0\<rparr>" s3])
    then have "trace_inv ?s4"
      using nn len3 by (intro trace_inv_wait) simp_all
    with E have "trace_inv s5" by blast
    then show "trace_inv s'"
      unfolding s' by (simp add: trace_inv_cong [of "s5\<lparr>m_used_block_index := 0\<rparr>" s5])
  qed
  show ?thesis
    using s' a5 sl5 fr5 fr4 sz cov tr
    by (simp add: ring_inv_def)
qed

lemma AllocateSpace_inv:
  assumes run: "AllocateSpace m (s\<lparr>m_position := r\<rparr>) = Inr s'"
    and inv: "ring_inv z s"
    and m: "unat m \<le> unat (m_size s)"
    and pos: "z \<or> 0 < unat m"
  shows "ring_inv z s'
     \<and> unat (m_position s') + unat m \<le> unat (m_size s')
     \<and> unat (m_position s') + unat m
          \<le> unat (m_available_block_index s') * unat (m_bytes_per_block s')
     \<and> m_size s' = m_size s \<and> m_bytes_per_block s' = m_bytes_per_block s
     \<and> (trace_inv s \<longrightarrow> trace_inv s')"
proof -
  let ?s0 = "s\<lparr>m_position := r\<rparr>"
  let ?B = "unat (m_bytes_per_block s)"
  let ?U = "unat (m_used_block_index s)"
  let ?A = "unat (m_available_block_index s)"
  let ?R = "unat r"
  let ?M = "unat m"
  from inv have sz: "unat (m_size s) = 16 * ?B" "unat (m_size s) \<le> 2 ^ 30"
    and A16: "?A \<le> 16"
    and UA: "?U < ?A \<or> (z \<and> ?U = 16 \<and> ?A = 16)"
    and sl: "slots_ok ?U ?A (m_sync_objects s)"
    by (simp_all add: ring_inv_def)
  from run obtain s1 where a1: "AddSyncsForOffset r ?s0 = Inr s1"
    by (auto simp add: AllocateSpace_def split: sum.splits)
  from run a1 obtain s2 where e2: "EnsureSyncsWaitedForOffset (m_position s1 + m) s1 = Inr s2"
    and fin: "(if m_size s2 < m_position s2 + m then AllocateSpace_wrap m s2 else Inr s2) = Inr s'"
    by (auto simp add: AllocateSpace_def split: sum.splits)
  have sl0: "slots_ok (unat (m_used_block_index ?s0)) ?A (m_sync_objects ?s0)"
    using sl by simp
  have UA0: "unat (m_used_block_index ?s0) \<le> ?A" using UA by auto
  note A = AddSyncsForOffset_slots [OF a1 sl0 UA0 A16, simplified]
  from A have B: "0 < ?B" and RA: "?R div ?B \<le> ?A"
    and u1: "unat (m_used_block_index s1) = max ?U (?R div ?B)"
    and sl1: "slots_ok (unat (m_used_block_index s1)) ?A (m_sync_objects s1)"
    by blast+
  from A have fr1: "m_size s1 = m_size s" "m_bytes_per_block s1 = m_bytes_per_block s"
    "m_position s1 = r" "m_available_block_index s1 = m_available_block_index s"
    by simp_all
  have B26: "?B \<le> 2 ^ 26" using sz by simp
  have "?R div ?B < 17" using RA A16 by simp
  then have R17: "?R < 17 * ?B" using B by (simp add: div_less_iff_less_mult)
  have M16: "?M \<le> 16 * ?B" using m sz by simp
  have RM: "?R + ?M < 2 ^ 32 - 1" using R17 M16 B26 by simp
  then have urm: "unat (r + m) = ?R + ?M" by (simp add: unat_add_lem [THEN iffD1])
  have sl1': "slots_ok (unat (m_used_block_index s1)) (unat (m_available_block_index s1))
                (m_sync_objects s1)"
    using sl1 fr1 by simp
  have UA1: "unat (m_used_block_index s1) \<le> unat (m_available_block_index s1)"
    using u1 RA UA fr1 by auto
  have off: "unat (m_position s1 + m) < 2 ^ 32 - 1" using RM urm fr1 by simp
  note E = EnsureSyncsWaitedForOffset_slots [OF e2 sl1' UA1 off]
  from E have "unat (m_available_block_index s2) =
      max (unat (m_available_block_index s1))
        (min (unat (m_position s1 + m) div unat (m_bytes_per_block s1) + 1) 16)"
    by blast
  then have a2: "unat (m_available_block_index s2) = max ?A (min ((?R + ?M) div ?B + 1) 16)"
    by (simp only: fr1 urm)
  from E have sl2: "slots_ok (unat (m_used_block_index s1)) (unat (m_available_block_index s2))
      (m_sync_objects s2)"
    by blast
  from E have fr2: "m_size s2 = m_size s" "m_bytes_per_block s2 = m_bytes_per_block s"
    "m_position s2 = r" "m_used_block_index s2 = m_used_block_index s1"
    using fr1 by simp_all
  have t2: "trace_inv s \<longrightarrow> trace_inv s2"
  proof
    assume "trace_inv s"
    then have "trace_inv ?s0" by (simp add: trace_inv_cong [of ?s0 s])
    with A have "trace_inv s1" by blast
    with E show "trace_inv s2" by blast
  qed
  show ?thesis
  proof (cases "m_size s2 < m_position s2 + m")
    case True
    with fin have w: "AllocateSpace_wrap m s2 = Inr s'" by simp
    from True have "16 * ?B < ?R + ?M"
      by (simp add: word_less_nat_alt fr2 urm sz)
    then have "16 \<le> (?R + ?M) div ?B" using B
      by (simp add: less_eq_div_iff_mult_less_eq) 
    then have a2': "unat (m_available_block_index s2) = 16" using a2 A16 by simp
    have u2: "unat (m_used_block_index s2) \<le> 16" using fr2 UA1 fr1 A16 by simp
    have W: "ring_inv z s' \<and> m_position s' = 0
       \<and> unat m \<le> unat (m_available_block_index s') * unat (m_bytes_per_block s')
       \<and> m_size s' = m_size s2 \<and> m_bytes_per_block s' = m_bytes_per_block s2
       \<and> (trace_inv s2 \<longrightarrow> trace_inv s')"
      by (rule AllocateSpace_wrap_inv [OF w])
         (use sz fr2 sl2 a2' u2 m in simp_all)
    then show ?thesis using m fr2 t2 by auto
  next
    case False
    with fin have s': "s' = s2" by simp
    from False have le: "?R + ?M \<le> 16 * ?B"
      by (simp add: word_less_nat_alt fr2 urm sz)
    have mono: "?R div ?B \<le> (?R + ?M) div ?B" by (rule div_le_mono) simp
    have strict: "0 < ?M \<Longrightarrow> ?R div ?B < 16"
      using le B by (simp add: div_less_iff_less_mult)
    have i4: "unat (m_used_block_index s2) < unat (m_available_block_index s2)
        \<or> (z \<and> unat (m_used_block_index s2) = 16 \<and> unat (m_available_block_index s2) = 16)"
      using u1 a2 fr2 UA RA A16 mono strict pos by (auto simp add: max_def min_def)
    have cov: "?R + ?M \<le> unat (m_available_block_index s2) * ?B"
    proof -
      from block_cover [OF B, of "?R + ?M"] le
      have "?R + ?M \<le> min ((?R + ?M) div ?B + 1) 16 * ?B" by auto
      also have "\<dots> \<le> unat (m_available_block_index s2) * ?B"
        unfolding a2 by (rule mult_le_mono1) simp
      finally show ?thesis .
    qed
    have a2_16: "unat (m_available_block_index s2) \<le> 16" using a2 A16 by simp
    show ?thesis
      unfolding s' using sz fr2 le i4 sl2 cov a2_16 t2
      by (simp add: ring_inv_def)
  qed
qed

lemma Map_BufferStorage_inv:
  assumes run: "Map_BufferStorage a m s = Inr (r, s')"
    and inv: "ring_inv z s"
    and m: "m \<le> m_size s"
    and pos: "z \<or> 0 < m"
  shows "ring_inv z s' \<and> m_size s' = m_size s
     \<and> (trace_inv s \<longrightarrow> trace_inv s')
     \<and> buffer_offset r = m_position s'
     \<and> unat (buffer_offset r) + unat m \<le> unat (m_size s)
     \<and> unat (buffer_offset r) + unat (space_aligned r) * unat a \<le> unat (m_size s)"
proof -
  from run obtain p where al: "AllocateSpace m (s\<lparr>m_position := p\<rparr>) = Inr s'"
    by (auto simp add: Map_BufferStorage_def split: sum.splits if_splits)
  from run al have a0: "a \<noteq> 0"
    and r: "buffer_offset r = m_position s'"
      "space_aligned r =
         (m_available_block_index s' * m_bytes_per_block s' - m_position s') div a"
    by (auto simp add: Map_BufferStorage_def split: sum.splits if_splits)
  have m': "unat m \<le> unat (m_size s)" using m by (simp add: word_le_nat_alt)
  have pos': "z \<or> 0 < unat m" using pos by (auto simp add: word_less_nat_alt)
  note A = AllocateSpace_inv [OF al inv m' pos']
  let ?P = "unat (m_position s')"
  let ?A = "unat (m_available_block_index s')"
  let ?B = "unat (m_bytes_per_block s')"
  from A have inv': "ring_inv z s'" and fit: "?P + unat m \<le> unat (m_size s')"
    and cov: "?P + unat m \<le> ?A * ?B"
    and fr: "m_size s' = m_size s" by blast+
  from inv' have sz: "unat (m_size s') = 16 * ?B" "unat (m_size s') \<le> 2 ^ 30" and A16: "?A \<le> 16"
    by (simp_all add: ring_inv_def)
  have AB: "?A * ?B \<le> 16 * ?B" using A16 by (rule mult_le_mono1)
  have "16 * ?B \<le> 2 ^ 30" using sz(2) unfolding sz(1) .
  with AB have "?A * ?B \<le> 2 ^ 30" by (rule order_trans)
  then have AB32': "?A * ?B < 2 ^ LENGTH(32)" by (rule le_less_trans) simp
  have um: "unat (m_available_block_index s' * m_bytes_per_block s') = ?A * ?B"
    using AB32' by (simp only: unat_mult_lem [THEN iffD1])
  have ple: "m_position s' \<le> m_available_block_index s' * m_bytes_per_block s'"
    using cov um by (simp add: word_le_nat_alt)
  have us: "unat (m_available_block_index s' * m_bytes_per_block s' - m_position s')
              = ?A * ?B - ?P"
    using ple um by (simp add: unat_sub)
  have sp: "unat (space_aligned r) = (?A * ?B - ?P) div unat a"
    using r(2) us by (simp add: unat_div)
  define X where "X = ?A * ?B - ?P"
  have d: "X div unat a * unat a \<le> X" by simp
  have px: "?P + X \<le> ?A * ?B" using cov by (simp add: X_def)
  have "?P + X div unat a * unat a \<le> ?A * ?B" using d px by linarith
  then have "?P + unat (space_aligned r) * unat a \<le> ?A * ?B"
    unfolding sp X_def .
  moreover have "?A * ?B \<le> unat (m_size s')" using AB unfolding sz(1) .
  ultimately have "?P + unat (space_aligned r) * unat a \<le> unat (m_size s')"
    by (rule order_trans)
  then show ?thesis using A r fit fr by simp
qed

lemma Unmap_BufferStorage_inv:
  assumes run: "Unmap_BufferStorage u s = Inr s'" and inv: "ring_inv z s"
  shows "ring_inv z s' \<and> m_size s' = m_size s \<and> (trace_inv s \<longrightarrow> trace_inv s')"
proof -
  from run have le: "m_position s + u \<le> m_size s"
    and s': "s' = s\<lparr>gl_calls := gl_calls s @
                     (if \<not> m_coherent s
                      then [BindBuffer (m_target s) (m_buffer_id s),
                            FlushMappedBufferRange (m_target s) (m_position s) u]
                      else []),
                  m_position := m_position s + u\<rparr>"
    by (auto simp add: Unmap_BufferStorage_def split: if_splits)
  have "trace_inv s \<longrightarrow> trace_inv s'"
    unfolding s'
    by (auto simp add: trace_inv_def sync_trace_ok_append sync_call_ok_def
          outstanding_syncs_append track_sync_def)
  moreover have "ring_inv z s'"
    using inv le unfolding s' by (simp add: ring_inv_def word_le_nat_alt)
  ultimately show ?thesis unfolding s' by simp
qed

lemma new_buffer_inv:
  assumes "16 dvd unat cap" "unat cap \<le> 2 ^ 30"
  shows "ring_inv z (BufferStorageStreamBuffer_new target buffer_id cap mapped_ptr coherent calls)"
proof -
  let ?s = "BufferStorageStreamBuffer_new target buffer_id cap mapped_ptr coherent calls"
  have "unat (m_size ?s) = 16 * unat (m_bytes_per_block ?s)"
    using bytes_per_block_exact [OF assms] by (simp only: BufferStorageStreamBuffer_new_def) simp
  moreover have "unat (m_size ?s) \<le> 2 ^ 30"
    using assms(2) by (simp only: BufferStorageStreamBuffer_new_def) simp
  moreover have "m_position ?s = 0" "m_used_block_index ?s = 0"
    "m_available_block_index ?s = 16" "m_sync_objects ?s = replicate 16 None"
    by (simp_all add: BufferStorageStreamBuffer_new_def NUM_SYNC_POINTS_def)
  ultimately show ?thesis
    by (simp add: ring_inv_def slots_ok_iff)
qed


lemma run_inv:
  "run cs s = Inr (rs, s') \<Longrightarrow> ring_inv z s \<Longrightarrow> list_all (within_capacity (m_size s)) cs \<Longrightarrow>
   z \<or> list_all nonzero_size cs \<Longrightarrow>
   ring_inv z s' \<and> m_size s' = m_size s \<and> (trace_inv s \<longrightarrow> trace_inv s')"
proof (induction cs arbitrary: s rs)
  case Nil
  then show ?case by simp
next
  case (Cons c cs)
  show ?case
  proof (cases c)
    case (MapCall a m)
    with Cons.prems(1) obtain r s1 where
      mp: "Map_BufferStorage a m s = Inr (r, s1)"
      and ms: "map_sum id (map_prod ((#) r) id) (run cs s1) = Inr (rs, s')"
      by (auto split: sum.splits)
    from ms obtain rs1 where rest: "run cs s1 = Inr (rs1, s')"
      by (cases "run cs s1") auto
    from Cons.prems(3,4) MapCall have m: "m \<le> m_size s" and pos: "z \<or> 0 < m"
      by auto
    note M = Map_BufferStorage_inv [OF mp Cons.prems(2) m pos]
    then have i1: "ring_inv z s1" and sz: "m_size s1 = m_size s" by blast+
    have "ring_inv z s' \<and> m_size s' = m_size s1 \<and> (trace_inv s1 \<longrightarrow> trace_inv s')"
      by (rule Cons.IH [OF rest i1]) (use Cons.prems(3,4) sz in auto)
    then show ?thesis using M by auto
  next
    case (UnmapCall u)
    with Cons.prems(1) obtain s1 where
      um: "Unmap_BufferStorage u s = Inr s1" and rest: "run cs s1 = Inr (rs, s')"
      by (auto split: sum.splits)
    note U = Unmap_BufferStorage_inv [OF um Cons.prems(2)]
    then have i1: "ring_inv z s1" and sz: "m_size s1 = m_size s" by blast+
    have "ring_inv z s' \<and> m_size s' = m_size s1 \<and> (trace_inv s1 \<longrightarrow> trace_inv s')"
      by (rule Cons.IH [OF rest i1]) (use Cons.prems(3,4) sz in auto)
    then show ?thesis using U by auto
  qed
qed

section \<open>Every call of a caller in contract returns\<close>














section \<open>The block indices and the fence slots\<close>











section \<open>Outside the contract\<close>

text \<open>An alignment above the block size can carry the position over blocks whose fences of
  the previous lap have not been waited on: \<^verbatim>\<open>AddSyncsForOffset\<close> then meets a slot that is
  still occupied (capacity 256, blocks of 16 bytes, alignment 64), or walks
  \<^verbatim>\<open>m_used_block_index\<close> past the array (capacity 1040, blocks of 65 bytes, alignment 256).
  With capacity \<open>2 ^ 31\<close> the sum \<^verbatim>\<open>m_position + size\<close> overflows: a \<^verbatim>\<open>Map\<close> of the whole
  capacity at the end of the buffer does not wrap, returns the offset \<open>2 ^ 31\<close> with no
  space, leaves both indices at 16 although no \<^verbatim>\<open>Map\<close> was zero-sized, and the next one-byte
  \<^verbatim>\<open>Unmap\<close> fails its assertion.\<close>

lemma alignment_above_block_size_fails_assertion:
  "run [MapCall 16 256, UnmapCall 256, MapCall 16 1, UnmapCall 1, MapCall 64 1]
       (BufferStorageStreamBuffer_new target buffer_id 256 mapped_ptr True []) = Inl AssertionFailed"
  by (simp add: ring_eval)

lemma alignment_above_block_size_leaves_array:
  "run [MapCall 16 1030, UnmapCall 1030, MapCall 256 16]
       (BufferStorageStreamBuffer_new target buffer_id 1040 mapped_ptr True []) = Inl OutOfBounds"
  by (simp add: ring_eval)

lemma capacity_2_31_overflows:
  "(\<exists>rs s. run [MapCall 16 2147483648, UnmapCall 2147483648, MapCall 16 2147483648]
       (BufferStorageStreamBuffer_new target buffer_id 2147483648 mapped_ptr True [])
         = Inr (rs, s)
      \<and> map buffer_offset rs = [0, 2147483648] \<and> map space_aligned rs = [134217728, 0]
      \<and> m_used_block_index s = 16 \<and> m_available_block_index s = 16)
   \<and> run [MapCall 16 2147483648, UnmapCall 2147483648, MapCall 16 2147483648, UnmapCall 1]
       (BufferStorageStreamBuffer_new target buffer_id 2147483648 mapped_ptr True [])
         = Inl AssertionFailed"
  by (simp add: ring_eval)

section \<open>Capacities that 16 does not divide\<close>

text \<open>With capacity 17 the blocks have 2 bytes and \<^verbatim>\<open>AddSyncsForOffset(m_size)\<close> fences the
  blocks below \<open>17 div 2 = 8\<close> only.  After a wrap-around the slots from
  \<^verbatim>\<open>m_available_block_index\<close> on are therefore not all non-null: the pattern of claim C10 is
  particular to capacities that 16 divides.\<close>

lemma fence_pattern_with_capacity_17:
  "\<exists>rs s. run [MapCall 1 1, UnmapCall 17, MapCall 1 1]
            (BufferStorageStreamBuffer_new target buffer_id 17 mapped_ptr True []) = Inr (rs, s)
     \<and> m_used_block_index s = 0 \<and> m_available_block_index s = 1
     \<and> m_sync_objects s =
          [None, Some 1, Some 2, Some 3, Some 4, Some 5, Some 6, Some 7,
           None, None, None, None, None, None, None, None]"
  by (simp add: ring_eval)

text \<open>Block 8 (byte 16) never gets a fence, and a \<^verbatim>\<open>Map\<close> that needs it after the wrap-around
  fails the assertion of \<^verbatim>\<open>EnsureSyncsWaitedForOffset\<close>.\<close>

lemma tail_block_without_fence_with_capacity_17:
  "run [MapCall 1 16, UnmapCall 16, MapCall 1 16]
       (BufferStorageStreamBuffer_new target buffer_id 17 mapped_ptr True []) = Inl AssertionFailed"
  by (simp add: ring_eval)

section \<open>Granted regions, for capacities that 16 divides\<close>

text \<open>The bound that claim C6 asks of every capacity does hold when 16 divides the capacity
  (at most \<open>2 ^ 30\<close> bytes): a \<^verbatim>\<open>Map\<close> from any reachable state grants a region inside the
  buffer, and the requested \<open>min_size\<close> bytes fit as well.\<close>

lemma Map_within_capacity_when_divisible:
  assumes cap: "16 dvd unat cap" "unat cap \<le> 2 ^ 30"
    and cs: "list_all (within_capacity cap) cs"
    and run: "run cs (BufferStorageStreamBuffer_new target buffer_id cap mapped_ptr coherent calls)
                = Inr (rs, s)"
    and m: "min_size \<le> cap"
    and mp: "Map_BufferStorage alignment min_size s = Inr (r, s')"
  shows "unat (buffer_offset r) + unat min_size \<le> unat cap
     \<and> unat (buffer_offset r) + unat (space_aligned r) * unat alignment \<le> unat cap"
proof -
  let ?s0 = "BufferStorageStreamBuffer_new target buffer_id cap mapped_ptr coherent calls"
  have sz: "m_size ?s0 = cap" by (simp add: BufferStorageStreamBuffer_new_def)
  have cs': "list_all (within_capacity (m_size ?s0)) cs" using cs sz by simp
  have "ring_inv True s \<and> m_size s = cap"
    using run_inv [where z = True, OF run new_buffer_inv [OF cap] cs'] sz by simp
  then have inv: "ring_inv True s" and m': "min_size \<le> m_size s" and c: "m_size s = cap"
    using m by simp_all
  have "unat (buffer_offset r) + unat min_size \<le> unat (m_size s)
     \<and> unat (buffer_offset r) + unat (space_aligned r) * unat alignment \<le> unat (m_size s)"
    using Map_BufferStorage_inv [OF mp inv m'] by blast
  then show ?thesis unfolding c .
qed

text \<open>In the same states the position never exceeds the capacity, so the assertion of
  \<^verbatim>\<open>Unmap(0)\<close> (claim C7) cannot fail there.\<close>

lemma reachable_position_within_size:
  assumes cap: "16 dvd unat cap" "unat cap \<le> 2 ^ 30"
    and cs: "list_all (within_capacity cap) cs"
    and run: "run cs (BufferStorageStreamBuffer_new target buffer_id cap mapped_ptr coherent calls)
                = Inr (rs, s)"
  shows "m_position s \<le> m_size s"
proof -
  let ?s0 = "BufferStorageStreamBuffer_new target buffer_id cap mapped_ptr coherent calls"
  have sz: "m_size ?s0 = cap" by (simp add: BufferStorageStreamBuffer_new_def)
  have cs': "list_all (within_capacity (m_size ?s0)) cs" using cs sz by simp
  have "ring_inv True s"
    using run_inv [where z = True, OF run new_buffer_inv [OF cap] cs'] by simp
  then show ?thesis by (simp add: ring_inv_def word_le_nat_alt)
qed

end
